theory Spec2Isabelle
  imports Main "HOL-Library.AList" "HOL-Library.Sublist"
begin

section \<open>The Hypnothera community manager\<close>

text \<open>
  A shallow embedding of \<^verbatim>\<open>hypnothera_community_manager.py\<close>: the content catalogs and
  the post generator, the run-state store, the comment-reply step and the daily routine.
  The browser driver, the clock, the random source, the environment variables and the
  JSON codec are outside the program; they appear as an environment record whose fields
  script what each of them answers. Every externally visible call the program makes is
  appended to a trace. Of the log lines, the trace keeps the dry-run notices that stand
  in for an action and the reports of the reply scan's exception handlers; the sleeps
  are not modelled, they only let the clock advance.
\<close>

subsection \<open>Exceptions\<close>

datatype error =
    KeyError | ValueError | IndexError | AttributeError | TypeError
  | WebDriverException | OSError
  | NotModelled  \<comment> \<open>a feature of \<^verbatim>\<open>str.format\<close> that the templates do not use\<close>

subsection \<open>The data model\<close>

record community_post =
  title :: string
  content :: string
  post_type :: string
  flair :: string
  pin :: bool

record weekly_thread =
  w_day :: string
  w_title :: string
  w_content :: string
  w_flair :: string
  w_pin :: bool

record daily_template =
  t_type :: string
  t_title :: string
  t_content :: string
  t_flair :: string

record tip =
  tip_title :: string
  tip_content :: string

text \<open>
  A decoded JSON document, as \<^verbatim>\<open>json.loads\<close> returns it. A dict keeps its keys in
  insertion order, so it is an association list: \<open>map_of\<close> reads a key and
  \<open>AList.update\<close> assigns one (in place when the key is there, at the end when it
  is new), which is what Python's dict does. A float is kept as its literal; the program
  never computes with one.
\<close>

datatype json =
    JNull
  | JBool bool
  | JInt int
  | JFloat string
  | JStr string
  | JList "json list"
  | JDict "(string \<times> json) list"

subsection \<open>The content catalogs\<close>

text \<open>Strings are byte strings: the three emoji of the weekly threads are their UTF-8 bytes.\<close>

definition WEEKLY_THREADS :: "weekly_thread list" where
  "WEEKLY_THREADS = [
     \<lparr>w_day = ''monday'',
      w_title = ''Weekly Manifestation Thread - What are you working on?'',
      w_content = ''Welcome to the weekly manifestation thread!\<newline>\<newline>This is a space to share:\<newline>- What you're working on manifesting\<newline>- Success stories from the past week\<newline>- Challenges you're facing\<newline>- Tips that have worked for you\<newline>\<newline>Let's support each other in achieving our goals. ''
        @ [CHR 0xF0, CHR 0x9F, CHR 0x8E, CHR 0xAF],
      w_flair = ''Discussion'',
      w_pin = True\<rparr>,
     \<lparr>w_day = ''wednesday'',
      w_title = ''Sleep Support Wednesday - Share your sleep wins'',
      w_content = ''Mid-week check in! How's your sleep been?\<newline>\<newline>Share:\<newline>- Sleep wins from this week\<newline>- Sessions that helped you\<newline>- Questions about sleep hypnosis\<newline>- Tips for better rest\<newline>\<newline>Sleep is the foundation of everything. Let's talk about it. ''
        @ [CHR 0xF0, CHR 0x9F, CHR 0x92, CHR 0xA4],
      w_flair = ''Discussion'',
      w_pin = False\<rparr>,
     \<lparr>w_day = ''friday'',
      w_title = ''Free Session Friday - Featured hypnosis of the week'',
      w_content = ''Happy Friday! Here's this week's featured free session:\<newline>\<newline>''
        @ [CHR 0xF0, CHR 0x9F, CHR 0x8E, CHR 0x99]
        @ '' **Session Title**\<newline>*Category: [Category]*\<newline>*Duration: [X] minutes*\<newline>\<newline>This session focuses on [description].\<newline>\<newline>Try it this weekend and let us know how it goes!\<newline>\<newline>[Link to session]\<newline>\<newline>---\<newline>\<newline>Want more? Check out our full library at hypnothera.ai'',
      w_flair = ''Featured'',
      w_pin = True\<rparr>]"

definition DAILY_CONTENT_TEMPLATES :: "daily_template list" where
  "DAILY_CONTENT_TEMPLATES = [
     \<lparr>t_type = ''tip'',
      t_title = ''Quick Hypnosis Tip: {tip_title}'',
      t_content = ''{tip_content}\<newline>\<newline>What's your favorite hypnosis tip? Share in the comments!\<newline>\<newline>---\<newline>\<newline>New to hypnosis? Try Hypnothera free at hypnothera.ai'',
      t_flair = ''Tips & Tricks''\<rparr>,
     \<lparr>t_type = ''success_story'',
      t_title = ''Success Story: {story_title}'',
      t_content = ''{story_content}\<newline>\<newline>Have you had success with hypnosis? We'd love to hear your story!\<newline>\<newline>---\<newline>\<newline>Start your own success story at hypnothera.ai'',
      t_flair = ''Success Story''\<rparr>,
     \<lparr>t_type = ''question'',
      t_title = ''Question of the Day: {question}'',
      t_content = ''{context}\<newline>\<newline>Drop your answers in the comments!\<newline>\<newline>---\<newline>\<newline>Want personalized hypnosis? Check out hypnothera.ai'',
      t_flair = ''Discussion''\<rparr>,
     \<lparr>t_type = ''feature_highlight'',
      t_title = ''Feature Spotlight: {feature_name}'',
      t_content = ''Did you know Hypnothera has {feature_name}?\<newline>\<newline>{feature_description}\<newline>\<newline>Try it out: hypnothera.ai\<newline>\<newline>---\<newline>\<newline>What feature would you like to see next? Let us know!'',
      t_flair = ''Announcement''\<rparr>]"

definition TIPS :: "tip list" where
  "TIPS = [
     \<lparr>tip_title = ''Start with 60 seconds'',
      tip_content = ''Don't try to jump into 20-minute sessions. Start with 60 seconds. Make it so easy you can't say no. Once that sticks, scale up.''\<rparr>,
     \<lparr>tip_title = ''Same time, same place'',
      tip_content = ''Your brain loves patterns. Do your hypnosis at the same time and place every day. It becomes a trigger for relaxation.''\<rparr>,
     \<lparr>tip_title = ''Stack your habits'',
      tip_content = ''Attach hypnosis to an existing habit. '' @ [CHR 0x22]
        @ ''After I brush my teeth, I'll do 5 minutes of hypnosis.'' @ [CHR 0x22]
        @ '' This is habit stacking.''\<rparr>,
     \<lparr>tip_title = ''Track it visibly'',
      tip_content = ''Use a calendar. Put an X on every day you do hypnosis. Don't break the chain. Visual feedback is powerful.''\<rparr>,
     \<lparr>tip_title = ''Headphones matter'',
      tip_content = ''Good headphones make a huge difference. Noise-canceling is ideal, but even basic earbuds work better than phone speakers.''\<rparr>]"

text \<open>The two lists local to \<^verbatim>\<open>generate_daily_post\<close>, and the one of \<^verbatim>\<open>generate_reply\<close>.\<close>

definition questions :: "(string \<times> string) list" where
  "questions = [
     (''What's your biggest challenge with hypnosis?'', ''We all hit roadblocks. What's been your biggest challenge with hypnosis or manifestation?''),
     (''How did you discover hypnosis?'', ''Everyone has an origin story. How did you first get into hypnosis?''),
     (''What's your favorite hypnosis category?'', ''Sleep? Confidence? Manifestation? What's your go-to?''),
     (''What time of day do you prefer hypnosis?'', ''Morning routine or evening wind-down? When do you find hypnosis most effective?''),
     (''Share your 'aha' moment'', ''When did hypnosis finally click for you? What made it all make sense?''),
     (''What's one myth about hypnosis you believed?'', ''Let's bust some myths together. What misconception did you have?''),
     (''How do you track your progress?'', ''Journals? Apps? Dreams? How do you know hypnosis is working for you?''),
     (''What's your pre-hypnosis ritual?'', ''Do you have a routine before sessions? Share your setup!''),
     (''Hypnosis fails - let's talk about them'', ''Not every session works. What hasn't worked for you and why?''),
     (''Partner reactions to hypnosis?'', ''How did your friends/family react when you started hypnosis?'')]"

definition features :: "(string \<times> string) list" where
  "features = [
     (''AI-Powered Personalization'', ''Every session is customized to your specific needs using advanced AI. No generic scripts.''),
     (''Voice Selection'', ''Choose from dozens of voices across multiple languages. Find the voice that resonates with you.''),
     (''Progress Tracking'', ''Track your hypnosis journey with detailed stats and insights.'')]"

definition story_title :: string where
  "story_title = ''From Insomnia to Restful Sleep''"

definition story_content :: string where
  "story_content = ''One of our users shared: 'I hadn't slept through the night in 3 years. After 2 weeks of nightly sleep hypnosis sessions, I'm sleeping 7 hours straight. It's changed my life.'' @ [CHR 0x27]"

definition replies :: "string list" where
  "replies = [
     ''Thanks for sharing! This is exactly what this community is for.'',
     ''Great insight! Have you noticed any other patterns?'',
     ''Love this! Keep us posted on your progress.'',
     ''Thanks for being part of the community! '' @ [CHR 0xF0, CHR 0x9F, CHR 0x8E, CHR 0xAF],
     ''This resonates with a lot of people here. Appreciate you sharing.'',
     ''Have you tried [related feature/session]? Might help with this.'',
     ''Solid advice! Thanks for contributing to the discussion.'']"

subsection \<open>Library functions the generator calls\<close>

text \<open>
  \<^verbatim>\<open>random.choice(xs)\<close>, with the draw made a parameter: any element of a non-empty
  list can come out, and the empty list raises IndexError.
\<close>

definition choice :: "nat \<Rightarrow> 'a list \<Rightarrow> error + 'a" where
  "choice r xs = (if xs = [] then Inl IndexError else Inr (xs ! (r mod length xs)))"

text \<open>
  \<^verbatim>\<open>template.format(**kw)\<close> for replacement fields that are plain names, which is all
  the templates have. The scan goes left to right; the second argument is the field name
  read so far while inside braces. \<^verbatim>\<open>{{\<close> and \<^verbatim>\<open>}}\<close> are the escaped braces,
  a lone \<^verbatim>\<open>}\<close> and an unclosed \<^verbatim>\<open>{\<close> raise ValueError, an empty or numeric field
  asks for a positional argument and raises IndexError (there is none), a name that is
  not a keyword raises KeyError. The value substituted is not scanned again.
\<close>

definition prepend :: "char \<Rightarrow> error + string \<Rightarrow> error + string" where
  "prepend c r = (case r of Inl e \<Rightarrow> Inl e | Inr s \<Rightarrow> Inr (c # s))"

definition field_value :: "(string \<times> string) list \<Rightarrow> string \<Rightarrow> error + string" where
  "field_value kw name =
     (if list_ex (\<lambda>c. c \<in> set ''!:.[{'') name then Inl NotModelled
      else if list_all (\<lambda>c. c \<in> set ''0123456789'') name then Inl IndexError
      else (case map_of kw name of None \<Rightarrow> Inl KeyError | Some v \<Rightarrow> Inr v))"

fun format_from :: "(string \<times> string) list \<Rightarrow> string option \<Rightarrow> string \<Rightarrow> error + string" where
  "format_from kw None [] = Inr []"
| "format_from kw (Some name) [] = Inl ValueError"
| "format_from kw None (c # cs) =
     (if c = CHR ''{'' then
        (case cs of
           [] \<Rightarrow> Inl ValueError
         | d # rest \<Rightarrow>
             if d = CHR ''{'' then prepend c (format_from kw None rest)
             else format_from kw (Some []) cs)
      else if c = CHR ''}'' then
        (case cs of
           [] \<Rightarrow> Inl ValueError
         | d # rest \<Rightarrow>
             if d = CHR ''}'' then prepend c (format_from kw None rest)
             else Inl ValueError)
      else prepend c (format_from kw None cs))"
| "format_from kw (Some name) (c # cs) =
     (if c = CHR ''}'' then
        (case field_value kw name of
           Inl e \<Rightarrow> Inl e
         | Inr v \<Rightarrow> (case format_from kw None cs of Inl e \<Rightarrow> Inl e | Inr s \<Rightarrow> Inr (v @ s)))
      else format_from kw (Some (name @ [c])) cs)"

definition format :: "string \<Rightarrow> (string \<times> string) list \<Rightarrow> error + string" where
  "format template kw = format_from kw None template"

subsection \<open>The post generator\<close>

definition fill :: "daily_template \<Rightarrow> (string \<times> string) list \<Rightarrow> (string \<times> string) list
    \<Rightarrow> error + community_post" where
  "fill template title_kw content_kw =
     (case format (t_title template) title_kw of
        Inl e \<Rightarrow> Inl e
      | Inr title' \<Rightarrow>
          (case format (t_content template) content_kw of
             Inl e \<Rightarrow> Inl e
           | Inr content' \<Rightarrow>
               Inr \<lparr>title = title', content = content', post_type = t_type template,
                    flair = t_flair template, pin = False\<rparr>))"

text \<open>
  \<open>r1\<close> is the draw of the template, \<open>r2\<close> the draw of the catalog entry (not
  consumed by the success story, which has one fixed text).
\<close>

definition generate_daily_post :: "nat \<Rightarrow> nat \<Rightarrow> error + community_post" where
  "generate_daily_post r1 r2 =
     (case choice r1 DAILY_CONTENT_TEMPLATES of
        Inl e \<Rightarrow> Inl e
      | Inr template \<Rightarrow>
          if t_type template = ''tip'' then
            (case choice r2 TIPS of
               Inl e \<Rightarrow> Inl e
             | Inr tp \<Rightarrow>
                 fill template [(''tip_title'', tip_title tp)] [(''tip_content'', tip_content tp)])
          else if t_type template = ''success_story'' then
            fill template [(''story_title'', story_title)] [(''story_content'', story_content)]
          else if t_type template = ''question'' then
            (case choice r2 questions of
               Inl e \<Rightarrow> Inl e
             | Inr (q, context) \<Rightarrow>
                 fill template [(''question'', q)] [(''context'', context)])
          else
            (case choice r2 features of
               Inl e \<Rightarrow> Inl e
             | Inr (feature_name, feature_desc) \<Rightarrow>
                 fill template [(''feature_name'', feature_name)]
                   [(''feature_name'', feature_name), (''feature_description'', feature_desc)]))"

definition generate_reply :: "nat \<Rightarrow> error + string" where
  "generate_reply r = choice r replies"

subsection \<open>The environment of one invocation\<close>

text \<open>
  A reading of \<^verbatim>\<open>datetime.now()\<close>, by the four things the routine reads from one:
  \<^verbatim>\<open>strftime('%Y-%m-%d')\<close>, \<^verbatim>\<open>strftime('%A').lower()\<close>, \<^verbatim>\<open>.hour\<close> and
  \<^verbatim>\<open>.isoformat()\<close>.
\<close>

record datetime =
  date :: string
  weekday :: string
  hour :: nat
  isoformat :: string

text \<open>
  The state file: missing; not to be examined (\<^verbatim>\<open>exists()\<close> raises: pathlib passes on
  every OSError of \<^verbatim>\<open>stat\<close> but the four that mean the file is not there, so a
  permission error comes out as PermissionError); there but raising on \<^verbatim>\<open>read_text\<close>;
  or there with a text.
\<close>

datatype state_file = Absent | Inaccessible | Unreadable | Text string

text \<open>
  What the driver answers. \<open>CdpRaises\<close>: Chrome started and the CDP command after it
  raised. \<open>LoginRaises\<close>: loading the login page raised (line 258, outside the
  \<^verbatim>\<open>try\<close>); \<open>LoginFalse\<close>: \<^verbatim>\<open>login\<close> returned False (the URL test failed, or an
  exception was caught). \<open>SubmitRaises\<close>: a driver call of \<^verbatim>\<open>create_post\<close> raised;
  \<open>UrlCheckFailed\<close>: the page after the submit click is not a comments page.
\<close>

datatype browser_outcome = Started | ChromeRaises | CdpRaises
datatype login_outcome = LoginTrue | LoginFalse | LoginRaises
datatype submit_outcome = UrlHasComments | UrlCheckFailed | SubmitRaises

text \<open>
  A comment element: its author link's text (\<open>None\<close>: the lookup raises), whether it
  has a reply thread (\<open>None\<close>: the lookup raises), and whether the driver calls that
  write and submit a reply to it (lines 469 to 486) all succeed.
\<close>

record comment =
  author :: "string option"
  has_replies :: "bool option"
  reply_works :: bool

text \<open>
  A post container of the listing: its body link (\<open>LinkRaises\<close>: the lookup raises;
  \<open>Href h\<close>: the value of the \<^verbatim>\<open>href\<close> attribute, \<open>None\<close> when there is none) and
  the comments found on the post's page (\<open>None\<close>: loading the page or listing its
  comments raises).
\<close>

datatype href_outcome = LinkRaises | Href "string option"

record post_container =
  href :: href_outcome
  page :: "comment list option"

record env =
  dry_run :: bool
  clock :: "nat \<Rightarrow> datetime"  \<comment> \<open>the k-th call of \<^verbatim>\<open>datetime.now()\<close>\<close>
  REDDIT_USERNAME :: "string option"
  json_loads :: "string \<Rightarrow> json option"  \<comment> \<open>\<open>None\<close>: raises\<close>
  json_dumps :: "json \<Rightarrow> string"
  write_ok :: bool  \<comment> \<open>\<^verbatim>\<open>write_text\<close> succeeds; when not, it is taken to fail on opening\<close>
  browser :: browser_outcome
  login_result :: login_outcome
  submit :: "community_post \<Rightarrow> submit_outcome"
  listing_loads :: bool  \<comment> \<open>loading the newest listing (line 415, outside the \<^verbatim>\<open>try\<close>)\<close>
  listing :: "post_container list option"  \<comment> \<open>the post containers found; \<open>None\<close>: raises\<close>
  daily_draws :: "nat \<times> nat"
  reply_draw :: "nat \<Rightarrow> nat"

text \<open>The calls the program makes on the outside world, with their arguments.\<close>

datatype event =
    OpenSession
  | QuitSession
  | Login
  | DryRunPost community_post  \<comment> \<open>logged: DRY RUN - Would create post\<close>
  | SubmitPost community_post  \<comment> \<open>the post is typed into the submit page\<close>
  | DryRunPin  \<comment> \<open>logged: DRY RUN - Would pin post\<close>
  | PinPost
  | DryRunReplies  \<comment> \<open>logged: DRY RUN - Would look for comments to reply to\<close>
  | VisitListing
  | VisitPost "string option"
  | ReplyAttempt comment  \<comment> \<open>line 469 is reached for the comment\<close>
  | ReplyPosted comment string  \<comment> \<open>the reply is submitted\<close>
  | LogUrlError  \<comment> \<open>logged by the handler of line 435: Could not extract URL from post\<close>
  | LogPostError  \<comment> \<open>logged by the handler of line 497: Error processing post\<close>
  | LogScanError  \<comment> \<open>logged by the handler of line 503: Error replying to comments\<close>
  | SaveState json  \<comment> \<open>\<^verbatim>\<open>save_state(state)\<close> is called\<close>

record world =
  STATE_FILE :: state_file
  trace :: "event list"
  ticks :: nat  \<comment> \<open>calls of \<^verbatim>\<open>datetime.now()\<close> so far\<close>
  driver :: bool  \<comment> \<open>\<^verbatim>\<open>self.driver\<close> is set\<close>

definition emit :: "event \<Rightarrow> world \<Rightarrow> world" where
  "emit e w = w\<lparr>trace := trace w @ [e]\<rparr>"

definition now :: "env \<Rightarrow> world \<Rightarrow> datetime \<times> world" where
  "now env w = (clock env (ticks w), w\<lparr>ticks := Suc (ticks w)\<rparr>)"

subsection \<open>The run-state store\<close>

definition exists_file :: "state_file \<Rightarrow> error + bool" where
  "exists_file f =
     (case f of Absent \<Rightarrow> Inr False | Inaccessible \<Rightarrow> Inl OSError | _ \<Rightarrow> Inr True)"

definition read_text :: "state_file \<Rightarrow> error + string" where
  "read_text f = (case f of Text s \<Rightarrow> Inr s | _ \<Rightarrow> Inl OSError)"

definition loads :: "env \<Rightarrow> string \<Rightarrow> error + json" where
  "loads env s = (case json_loads env s of None \<Rightarrow> Inl ValueError | Some v \<Rightarrow> Inr v)"

text \<open>
  The \<^verbatim>\<open>try\<close> covers reading and decoding; its handler logs and falls through to
  \<^verbatim>\<open>return {}\<close>. The test \<^verbatim>\<open>exists()\<close> of line 219 stands before the \<^verbatim>\<open>try\<close>:
  what it raises leaves \<^verbatim>\<open>load_state\<close>.
\<close>

definition load_state :: "env \<Rightarrow> world \<Rightarrow> error + json" where
  "load_state env w =
     (case exists_file (STATE_FILE w) of
        Inl e \<Rightarrow> Inl e
      | Inr True \<Rightarrow>
          (case (case read_text (STATE_FILE w) of Inl e \<Rightarrow> Inl e | Inr s \<Rightarrow> loads env s) of
             Inr v \<Rightarrow> Inr v
           | Inl e \<Rightarrow> Inr (JDict []))
      | Inr False \<Rightarrow> Inr (JDict []))"

definition save_state :: "env \<Rightarrow> json \<Rightarrow> world \<Rightarrow> world" where
  "save_state env state w =
     (let w1 = emit (SaveState state) w
      in if write_ok env then w1\<lparr>STATE_FILE := Text (json_dumps env state)\<rparr> else w1)"

subsection \<open>Browser session, login, posting\<close>

definition setup_browser :: "env \<Rightarrow> world \<Rightarrow> (error + unit) \<times> world" where
  "setup_browser env w =
     (case browser env of
        ChromeRaises \<Rightarrow> (Inl WebDriverException, w)
      | CdpRaises \<Rightarrow> (Inl WebDriverException, emit OpenSession w)
      | Started \<Rightarrow> (Inr (), emit OpenSession w))"

definition login :: "env \<Rightarrow> world \<Rightarrow> (error + bool) \<times> world" where
  "login env w =
     (let w1 = emit Login w
      in case login_result env of
           LoginRaises \<Rightarrow> (Inl WebDriverException, w1)
         | LoginFalse \<Rightarrow> (Inr False, w1)
         | LoginTrue \<Rightarrow> (Inr True, w1))"

definition pin_post :: "env \<Rightarrow> world \<Rightarrow> world" where
  "pin_post env w = (if dry_run env then emit DryRunPin w else emit PinPost w)"

text \<open>
  \<^verbatim>\<open>create_post\<close> returns the success flag; the message it returns with it only feeds
  the log.
\<close>

definition create_post :: "env \<Rightarrow> community_post \<Rightarrow> world \<Rightarrow> bool \<times> world" where
  "create_post env post w =
     (if dry_run env then (True, emit (DryRunPost post) w)
      else
        (let w1 = emit (SubmitPost post) w
         in case submit env post of
              UrlHasComments \<Rightarrow> (True, if pin post then pin_post env w1 else w1)
            | UrlCheckFailed \<Rightarrow> (False, w1)
            | SubmitRaises \<Rightarrow> (False, w1)))"

subsection \<open>The comment-reply step\<close>

definition startswith :: "string \<Rightarrow> string \<Rightarrow> bool" where
  "startswith s p = (take (length p) s = p)"

definition absolute :: "string option \<Rightarrow> string option" where
  "absolute h =
     (case h of
        None \<Rightarrow> None
      | Some u \<Rightarrow>
          if u \<noteq> [] \<and> \<not> startswith u ''http'' then Some (''https://www.reddit.com'' @ u)
          else Some u)"

text \<open>
  The first loop: the URLs of the posts, each kept with the page it leads to. A link
  lookup that raises is logged and the container left out.
\<close>

fun extract_urls ::
  "post_container list \<Rightarrow> world \<Rightarrow> (string option \<times> comment list option) list \<times> world" where
  "extract_urls [] w = ([], w)"
| "extract_urls (p # ps) w =
     (case href p of
        LinkRaises \<Rightarrow> extract_urls ps (emit LogUrlError w)
      | Href h \<Rightarrow>
          (case extract_urls ps w of
             (post_urls, w') \<Rightarrow> ((absolute h, page p) # post_urls, w')))"

text \<open>
  The loop over the comments of one post. It ends at the last comment, at the
  \<^verbatim>\<open>break\<close>, or at an exception, which the handler around the post (lines 497 to
  499) logs; in each case the next post follows, so the result is the count and the
  world.
\<close>

fun comment_loop :: "env \<Rightarrow> int \<Rightarrow> comment list \<Rightarrow> nat \<Rightarrow> world \<Rightarrow> nat \<times> world" where
  "comment_loop env max_replies [] replies_made w = (replies_made, w)"
| "comment_loop env max_replies (c # cs) replies_made w =
     (if author c \<noteq> None \<and> author c = REDDIT_USERNAME env then
        comment_loop env max_replies cs replies_made w
      else
        (case has_replies c of
           None \<Rightarrow> (replies_made, emit LogPostError w)
         | Some True \<Rightarrow> comment_loop env max_replies cs replies_made w
         | Some False \<Rightarrow>
             (let w1 = emit (ReplyAttempt c) w
              in if \<not> reply_works c then (replies_made, emit LogPostError w1)
                 else
                   (case generate_reply (reply_draw env replies_made) of
                      Inl e \<Rightarrow> (replies_made, emit LogPostError w1)
                    | Inr reply_text \<Rightarrow>
                        (let w2 = emit (ReplyPosted c reply_text) w1
                         in if max_replies \<le> int (Suc replies_made) then (Suc replies_made, w2)
                            else comment_loop env max_replies cs (Suc replies_made) w2)))))"

fun post_loop ::
  "env \<Rightarrow> int \<Rightarrow> (string option \<times> comment list option) list \<Rightarrow> nat \<Rightarrow> world \<Rightarrow> nat \<times> world" where
  "post_loop env max_replies [] replies_made w = (replies_made, w)"
| "post_loop env max_replies ((post_url, pg) # ps) replies_made w =
     (if max_replies \<le> int replies_made then (replies_made, w)
      else
        (let w1 = emit (VisitPost post_url) w
         in case (case post_url of None \<Rightarrow> None | Some u \<Rightarrow> pg) of
              None \<Rightarrow> post_loop env max_replies ps replies_made (emit LogPostError w1)
            | Some comments \<Rightarrow>
                (case comment_loop env max_replies comments replies_made w1 of
                   (n, w2) \<Rightarrow> post_loop env max_replies ps n w2)))"

text \<open>The default of the parameter \<^verbatim>\<open>max_replies\<close> (line 406); the routine passes 3.\<close>

definition max_replies_default :: int where
  "max_replies_default = 5"

definition reply_to_comments :: "env \<Rightarrow> int \<Rightarrow> world \<Rightarrow> error option \<times> world" where
  "reply_to_comments env max_replies w =
     (if dry_run env then (None, emit DryRunReplies w)
      else
        (let w1 = emit VisitListing w
         in if \<not> listing_loads env then (Some WebDriverException, w1)
            else
              (case listing env of
                 None \<Rightarrow> (None, emit LogScanError w1)
               | Some post_elements \<Rightarrow>
                   (case extract_urls (take 10 post_elements) w1 of
                      (post_urls, w2) \<Rightarrow>
                        (None, snd (post_loop env max_replies post_urls 0 w2))))))"

subsection \<open>The daily routine\<close>

datatype outcome = Skipped | LoginFailed | Completed | Raised error

definition weekly_post :: "weekly_thread \<Rightarrow> community_post" where
  "weekly_post weekly =
     \<lparr>title = w_title weekly, content = w_content weekly, post_type = ''weekly'',
      flair = w_flair weekly, pin = w_pin weekly\<rparr>"

text \<open>Lines 549 to 567. The clock is read only when the day matches.\<close>

fun post_weekly :: "env \<Rightarrow> string \<Rightarrow> weekly_thread list \<Rightarrow> nat \<Rightarrow> world \<Rightarrow> nat \<times> world" where
  "post_weekly env today_name [] posts_made w = (posts_made, w)"
| "post_weekly env today_name (weekly # rest) posts_made w =
     (if w_day weekly = today_name then
        (case now env w of
           (t, w1) \<Rightarrow>
             if hour t < 12 then
               (case create_post env (weekly_post weekly) w1 of
                  (success, w2) \<Rightarrow>
                    post_weekly env today_name rest
                      (if success then Suc posts_made else posts_made) w2)
             else post_weekly env today_name rest posts_made w1)
      else post_weekly env today_name rest posts_made w)"

text \<open>Lines 570 to 577. The clock is read only when a post has been made.\<close>

definition post_daily :: "env \<Rightarrow> nat \<Rightarrow> world \<Rightarrow> (error + nat) \<times> world" where
  "post_daily env posts_made w =
     (case (if posts_made = 0 then (True, w)
            else (case now env w of (t, w1) \<Rightarrow> (14 \<le> hour t, w1))) of
        (due, w1) \<Rightarrow>
          if due then
            (case generate_daily_post (fst (daily_draws env)) (snd (daily_draws env)) of
               Inl e \<Rightarrow> (Inl e, w1)
             | Inr daily_post \<Rightarrow>
                 (case create_post env daily_post w1 of
                    (success, w2) \<Rightarrow> (Inr (if success then Suc posts_made else posts_made), w2)))
          else (Inr posts_made, w1))"

text \<open>
  Lines 588 to 590. The right-hand side is evaluated first, so the clock is read before
  the item assignment can raise (TypeError when \<^verbatim>\<open>state['weekly_threads']\<close> is not a
  dict).
\<close>

fun track_weekly ::
  "env \<Rightarrow> string \<Rightarrow> nat \<Rightarrow> weekly_thread list \<Rightarrow> (string \<times> json) list \<Rightarrow> world
    \<Rightarrow> (error + (string \<times> json) list) \<times> world" where
  "track_weekly env today_name posts_made [] state w = (Inr state, w)"
| "track_weekly env today_name posts_made (weekly # rest) state w =
     (if w_day weekly = today_name \<and> 0 < posts_made then
        (case now env w of
           (t, w1) \<Rightarrow>
             (case map_of state ''weekly_threads'' of
                None \<Rightarrow> (Inl KeyError, w1)
              | Some (JDict threads) \<Rightarrow>
                  track_weekly env today_name posts_made rest
                    (AList.update ''weekly_threads''
                       (JDict (AList.update (w_day weekly) (JStr (isoformat t)) threads)) state)
                    w1
              | Some _ \<Rightarrow> (Inl TypeError, w1)))
      else track_weekly env today_name posts_made rest state w)"

text \<open>Lines 583 to 585.\<close>

definition update_state :: "string \<Rightarrow> nat \<Rightarrow> (string \<times> json) list \<Rightarrow> (string \<times> json) list" where
  "update_state today posts_made state =
     (let state1 = AList.update ''last_run'' (JStr today) state;
          state2 = AList.update ''posts_made'' (JInt (int posts_made)) state1
      in AList.update ''weekly_threads''
           (case map_of state2 ''weekly_threads'' of None \<Rightarrow> JDict [] | Some v \<Rightarrow> v) state2)"

text \<open>The body of the \<^verbatim>\<open>try\<close> (lines 536 to 595).\<close>

definition try_body :: "env \<Rightarrow> (string \<times> json) list \<Rightarrow> string \<Rightarrow> string \<Rightarrow> world \<Rightarrow> outcome \<times> world" where
  "try_body env state today today_name w =
     (case setup_browser env w of
        (Inl e, w1) \<Rightarrow> (Raised e, w1)
      | (Inr u, w1) \<Rightarrow>
          (case login env (w1\<lparr>driver := True\<rparr>) of
             (Inl e, w2) \<Rightarrow> (Raised e, w2)
           | (Inr False, w2) \<Rightarrow> (LoginFailed, w2)
           | (Inr True, w2) \<Rightarrow>
               (case post_weekly env today_name WEEKLY_THREADS 0 w2 of
                  (weekly_made, w3) \<Rightarrow>
                    (case post_daily env weekly_made w3 of
                       (Inl e, w4) \<Rightarrow> (Raised e, w4)
                     | (Inr posts_made, w4) \<Rightarrow>
                         (case reply_to_comments env 3 w4 of
                            (Some e, w5) \<Rightarrow> (Raised e, w5)
                          | (None, w5) \<Rightarrow>
                              (case track_weekly env today_name posts_made WEEKLY_THREADS
                                      (update_state today posts_made state) w5 of
                                 (Inl e, w6) \<Rightarrow> (Raised e, w6)
                               | (Inr state', w6) \<Rightarrow>
                                   (Completed, save_state env (JDict state') w6)))))))"

text \<open>The \<^verbatim>\<open>finally\<close> clause.\<close>

definition finally_quit :: "outcome \<times> world \<Rightarrow> outcome \<times> world" where
  "finally_quit r = (case r of (out, w) \<Rightarrow> (out, if driver w then emit QuitSession w else w))"

text \<open>
  \<^verbatim>\<open>state.get\<close> raises AttributeError when the decoded document is not a dict; that
  is before the \<^verbatim>\<open>try\<close>, and after the first reading of the clock.
\<close>

definition run_daily_routine :: "env \<Rightarrow> world \<Rightarrow> outcome \<times> world" where
  "run_daily_routine env w =
     (case load_state env w of
        Inl e \<Rightarrow> (Raised e, w)
      | Inr loaded \<Rightarrow>
          (case now env w of
             (t0, w0) \<Rightarrow>
               (case loaded of
                  JDict state \<Rightarrow>
                    if map_of state ''last_run'' = Some (JStr (date t0)) \<and> \<not> dry_run env
                    then (Skipped, w0)
                    else
                      (case now env w0 of
                         (t1, w1) \<Rightarrow> finally_quit (try_body env state (date t0) (weekday t1) w1))
                | _ \<Rightarrow> (Raised AttributeError, w0))))"

section \<open>Vocabulary of the properties\<close>

subsection \<open>Posts\<close>

text \<open>
  A string still has a placeholder when an opening brace is followed, anywhere later,
  by a closing one.
\<close>

fun has_placeholder :: "string \<Rightarrow> bool" where
  "has_placeholder [] = False"
| "has_placeholder (c # cs) = ((c = CHR ''{'' \<and> CHR ''}'' \<in> set cs) \<or> has_placeholder cs)"

definition resolved :: "error + community_post \<Rightarrow> bool" where
  "resolved r =
     (case r of
        Inl e \<Rightarrow> False
      | Inr p \<Rightarrow> \<not> has_placeholder (title p) \<and> \<not> has_placeholder (content p))"

subsection \<open>Traces\<close>

text \<open>
  The events one call adds to the trace, and the kinds of event the properties tell
  apart: a post going out through the driver, a step of the reply scan, a call of
  \<^verbatim>\<open>save_state\<close>, the opening, login and closing of the browser session.
\<close>

definition new_events :: "world \<Rightarrow> world \<Rightarrow> event list" where
  "new_events w w' = drop (length (trace w)) (trace w')"

fun posting_action :: "event \<Rightarrow> bool" where
  "posting_action (SubmitPost p) = True"
| "posting_action PinPost = True"
| "posting_action e = False"

fun reply_action :: "event \<Rightarrow> bool" where
  "reply_action VisitListing = True"
| "reply_action (VisitPost u) = True"
| "reply_action (ReplyAttempt c) = True"
| "reply_action (ReplyPosted c s) = True"
| "reply_action e = False"

fun state_write :: "event \<Rightarrow> bool" where
  "state_write (SaveState s) = True"
| "state_write e = False"

fun session_event :: "event \<Rightarrow> bool" where
  "session_event OpenSession = True"
| "session_event QuitSession = True"
| "session_event Login = True"
| "session_event e = False"

text \<open>The documents handed to \<^verbatim>\<open>save_state\<close>, and the posts handed to \<^verbatim>\<open>create_post\<close>.\<close>

fun saved :: "event list \<Rightarrow> json list" where
  "saved [] = []"
| "saved (SaveState s # es) = s # saved es"
| "saved (e # es) = saved es"

fun posts_of :: "event list \<Rightarrow> community_post list" where
  "posts_of [] = []"
| "posts_of (SubmitPost p # es) = p # posts_of es"
| "posts_of (DryRunPost p # es) = p # posts_of es"
| "posts_of (e # es) = posts_of es"

text \<open>The comments a reply was started on, and those a reply was submitted to.\<close>

fun attempted :: "event list \<Rightarrow> comment list" where
  "attempted [] = []"
| "attempted (ReplyAttempt c # es) = c # attempted es"
| "attempted (e # es) = attempted es"

fun replied :: "event list \<Rightarrow> comment list" where
  "replied [] = []"
| "replied (ReplyPosted c s # es) = c # replied es"
| "replied (e # es) = replied es"

text \<open>
  What the posting and reply steps may add to the trace, in a dry run and in a real one;
  \<open>step_event\<close> adds the session events. \<open>adds P\<close> relates a world to a later one
  whose trace has grown by events that satisfy \<open>P\<close>.
\<close>

fun body_event :: "bool \<Rightarrow> event \<Rightarrow> bool" where
  "body_event dry (DryRunPost p) = dry"
| "body_event dry DryRunReplies = dry"
| "body_event dry (SubmitPost p) = (\<not> dry)"
| "body_event dry PinPost = (\<not> dry)"
| "body_event dry VisitListing = (\<not> dry)"
| "body_event dry (VisitPost u) = (\<not> dry)"
| "body_event dry (ReplyAttempt c) = (\<not> dry)"
| "body_event dry (ReplyPosted c s) = (\<not> dry)"
| "body_event dry LogUrlError = (\<not> dry)"
| "body_event dry LogPostError = (\<not> dry)"
| "body_event dry LogScanError = (\<not> dry)"
| "body_event dry e = False"

definition step_event :: "bool \<Rightarrow> event \<Rightarrow> bool" where
  "step_event dry e \<longleftrightarrow> session_event e \<or> body_event dry e"

definition adds :: "(event \<Rightarrow> bool) \<Rightarrow> world \<Rightarrow> world \<Rightarrow> bool" where
  "adds P w w' \<longleftrightarrow>
     (\<exists>es. trace w' = trace w @ es \<and> list_all P es)"

text \<open>Every key but the three the routine assigns reads as before.\<close>

definition untouched :: "(string \<times> json) list \<Rightarrow> (string \<times> json) list \<Rightarrow> bool" where
  "untouched state state' \<longleftrightarrow>
     (\<forall>k. k \<notin> {''last_run'', ''posts_made'', ''weekly_threads''}
        \<longrightarrow> map_of state' k = map_of state k)"

subsection \<open>The reply candidates\<close>

text \<open>
  A comment is eligible when the scan skips it neither as the account's own (the author
  is found and is \<^verbatim>\<open>REDDIT_USERNAME\<close>) nor as answered. The candidates are the comments
  on the first ten post containers of the listing.
\<close>

definition eligible :: "env \<Rightarrow> comment \<Rightarrow> bool" where
  "eligible env c \<longleftrightarrow>
     \<not> (author c \<noteq> None \<and> author c = REDDIT_USERNAME env) \<and> has_replies c = Some False"

definition comments_on :: "comment list option \<Rightarrow> comment list" where
  "comments_on pg = (case pg of None \<Rightarrow> [] | Some cs \<Rightarrow> cs)"

definition candidates :: "env \<Rightarrow> comment list" where
  "candidates env =
     (case listing env of
        None \<Rightarrow> []
      | Some post_elements \<Rightarrow> concat (map (\<lambda>p. comments_on (page p)) (take 10 post_elements)))"

text \<open>The reports of the scan's three exception handlers.\<close>

fun scan_error :: "event \<Rightarrow> bool" where
  "scan_error LogUrlError = True"
| "scan_error LogPostError = True"
| "scan_error LogScanError = True"
| "scan_error e = False"

text \<open>The events the reply step adds when called with bound \<open>k\<close>.\<close>

definition scan_events :: "env \<Rightarrow> int \<Rightarrow> world \<Rightarrow> event list" where
  "scan_events env k w = new_events w (snd (reply_to_comments env k w))"

text \<open>
  What a stretch of the scan has done, for the comments \<open>cs\<close> it had before it, the
  count \<open>n\<close> on entry and \<open>n'\<close> on exit, and the events \<open>es\<close> it added: the count
  grew by the replies submitted; replies were attempted only on eligible comments, in
  order, and submitted only after an attempt; and when no handler fired, the attempts
  are the first eligible comments up to the bound, each with its reply.
\<close>

definition scanned :: "env \<Rightarrow> int \<Rightarrow> comment list \<Rightarrow> nat \<Rightarrow> nat \<Rightarrow> event list \<Rightarrow> bool" where
  "scanned env k cs n n' es \<longleftrightarrow>
     n' = n + length (replied es)
     \<and> subseq (attempted es) (filter (eligible env) cs)
     \<and> subseq (replied es) (attempted es)
     \<and> (\<not> list_ex scan_error es \<longrightarrow>
          attempted es = take (nat k - n) (filter (eligible env) cs)
          \<and> replied es = attempted es)"

text \<open>A trace that has grown by at most \<open>m\<close> submitted replies; an event that is none.\<close>

definition replies_within :: "nat \<Rightarrow> world \<Rightarrow> world \<Rightarrow> bool" where
  "replies_within m w w' \<longleftrightarrow> (\<exists>es. trace w' = trace w @ es \<and> length (replied es) \<le> m)"

definition no_reply :: "event \<Rightarrow> bool" where
  "no_reply e \<longleftrightarrow> replied [e] = []"

subsection \<open>Concrete invocations\<close>

text \<open>
  Monday, 1 January 2024, 09:00, with a clock that stands still; no state file; a driver
  that succeeds at everything and a listing without posts. The other environments change
  one field each.
\<close>

definition monday_morning :: datetime where
  "monday_morning =
     \<lparr>date = ''2024-01-01'', weekday = ''monday'', hour = 9,
      isoformat = ''2024-01-01T09:00:00''\<rparr>"

definition start :: world where
  "start = \<lparr>STATE_FILE = Absent, trace = [], ticks = 0, driver = False\<rparr>"

definition plain_env :: env where
  "plain_env =
     \<lparr>dry_run = False, clock = (\<lambda>k. monday_morning), REDDIT_USERNAME = Some ''hypnothera'',
      json_loads = (\<lambda>s. if s = ''{}'' then Some (JDict []) else None),
      json_dumps = (\<lambda>j. ''{...}''), write_ok = True, browser = Started,
      login_result = LoginTrue, submit = (\<lambda>p. UrlHasComments), listing_loads = True,
      listing = Some [], daily_draws = (0, 0), reply_draw = (\<lambda>n. n)\<rparr>"

definition dry_env :: env where
  "dry_env = plain_env\<lparr>dry_run := True\<rparr>"

definition locked_out_env :: env where
  "locked_out_env = plain_env\<lparr>login_result := LoginFalse\<rparr>"

definition weekly_fails_env :: env where
  "weekly_fails_env =
     plain_env\<lparr>submit :=
       (\<lambda>p. if post_type p = ''weekly'' then UrlCheckFailed else UrlHasComments)\<rparr>"

text \<open>A state file left by an earlier run today, and one with a foreign key.\<close>

definition ran_today :: world where
  "ran_today = start\<lparr>STATE_FILE := Text ''(the state of an earlier run)''\<rparr>"

definition ran_today_env :: env where
  "ran_today_env =
     plain_env\<lparr>json_loads := (\<lambda>s. Some (JDict [(''last_run'', JStr ''2024-01-01''), (''posts_made'', JInt 1)]))\<rparr>"

definition noted_env :: env where
  "noted_env =
     plain_env\<lparr>json_loads :=
       (\<lambda>s. Some (JDict [(''note'', JStr ''keep me''), (''last_run'', JStr ''2023-12-31'')]))\<rparr>"

text \<open>
  Listings. In \<open>flaky_env\<close> the first reply on the one post raises. In \<open>busy_env\<close> the
  first post has an answered comment and one of the account's own among three eligible
  ones, the second has a comment on which a reply would raise, after an eligible one, and
  the page of the third would not load. In \<open>crowd_env\<close> one post has six eligible
  comments.
\<close>

definition commenter :: "string \<Rightarrow> comment" where
  "commenter name = \<lparr>author = Some name, has_replies = Some False, reply_works = True\<rparr>"

definition flaky_env :: env where
  "flaky_env =
     plain_env\<lparr>listing :=
       Some [\<lparr>href = Href (Some ''/r/Hypnotheraai/comments/1''),
              page = Some [(commenter ''alice'')\<lparr>reply_works := False\<rparr>, commenter ''bob'']\<rparr>]\<rparr>"

definition busy_env :: env where
  "busy_env =
     plain_env\<lparr>listing :=
       Some [\<lparr>href = Href (Some ''/r/Hypnotheraai/comments/1''),
              page = Some [commenter ''bob'', (commenter ''carol'')\<lparr>has_replies := Some True\<rparr>,
                           commenter ''hypnothera'', commenter ''dave'']\<rparr>,
             \<lparr>href = Href (Some ''https://www.reddit.com/r/Hypnotheraai/comments/2''),
              page = Some [commenter ''erin'', (commenter ''frank'')\<lparr>reply_works := False\<rparr>]\<rparr>,
             \<lparr>href = Href (Some ''/r/Hypnotheraai/comments/3''), page = None\<rparr>]\<rparr>"

definition crowd_env :: env where
  "crowd_env =
     plain_env\<lparr>listing :=
       Some [\<lparr>href = Href (Some ''/r/Hypnotheraai/comments/1''),
              page = Some (map commenter [''bob'', ''dave'', ''erin'', ''grace'', ''heidi'', ''ivan''])\<rparr>]\<rparr>"

text \<open>A state file whose existence test raises.\<close>

definition sealed :: world where
  "sealed = start\<lparr>STATE_FILE := Inaccessible\<rparr>"

section \<open>The post generator\<close>

lemma choice_nth: "xs \<noteq> [] \<Longrightarrow> choice r xs = Inr (xs ! (r mod length xs))"
  by (simp add: choice_def)

lemma choice_in_set: "xs \<noteq> [] \<Longrightarrow> \<exists>x \<in> set xs. choice r xs = Inr x"
  by (simp add: choice_def)

lemma catalogs_nonempty:
  "DAILY_CONTENT_TEMPLATES \<noteq> []" "TIPS \<noteq> []" "questions \<noteq> []" "features \<noteq> []" "replies \<noteq> []"
  by code_simp+

lemma length_templates: "length DAILY_CONTENT_TEMPLATES = 4"
  by code_simp

lemma template_kinds:
  "t_type (DAILY_CONTENT_TEMPLATES ! 0) = ''tip''"
  "t_type (DAILY_CONTENT_TEMPLATES ! Suc 0) \<noteq> ''tip''"
  "t_type (DAILY_CONTENT_TEMPLATES ! Suc 0) = ''success_story''"
  "t_type (DAILY_CONTENT_TEMPLATES ! 2) \<noteq> ''tip''"
  "t_type (DAILY_CONTENT_TEMPLATES ! 2) \<noteq> ''success_story''"
  "t_type (DAILY_CONTENT_TEMPLATES ! 2) = ''question''"
  "t_type (DAILY_CONTENT_TEMPLATES ! 3) \<noteq> ''tip''"
  "t_type (DAILY_CONTENT_TEMPLATES ! 3) \<noteq> ''success_story''"
  "t_type (DAILY_CONTENT_TEMPLATES ! 3) \<noteq> ''question''"
  by code_simp+

lemma tips_resolved:
  "list_all (\<lambda>tp. resolved (fill (DAILY_CONTENT_TEMPLATES ! 0)
      [(''tip_title'', tip_title tp)] [(''tip_content'', tip_content tp)])) TIPS"
  by code_simp

lemma story_resolved:
  "resolved (fill (DAILY_CONTENT_TEMPLATES ! Suc 0)
      [(''story_title'', story_title)] [(''story_content'', story_content)])"
  by code_simp

lemma questions_resolved:
  "list_all (\<lambda>(q, context). resolved (fill (DAILY_CONTENT_TEMPLATES ! 2)
      [(''question'', q)] [(''context'', context)])) questions"
  by code_simp

lemma features_resolved:
  "list_all (\<lambda>(feature_name, feature_desc). resolved (fill (DAILY_CONTENT_TEMPLATES ! 3)
      [(''feature_name'', feature_name)]
      [(''feature_name'', feature_name), (''feature_description'', feature_desc)])) features"
  by code_simp

lemma generate_daily_post_resolved: "resolved (generate_daily_post r1 r2)"
proof -
  let ?k = "r1 mod 4"
  have tmpl: "choice r1 DAILY_CONTENT_TEMPLATES = Inr (DAILY_CONTENT_TEMPLATES ! ?k)"
    using choice_nth [OF catalogs_nonempty(1), of r1] by (simp only: length_templates)
  have "?k < 4" by simp
  then consider "?k = 0" | "?k = Suc 0" | "?k = 2" | "?k = 3" by linarith
  then show ?thesis
  proof cases
    case 1
    obtain tp where "tp \<in> set TIPS" "choice r2 TIPS = Inr tp"
      using choice_in_set [OF catalogs_nonempty(2)] by blast
    with tips_resolved 1 tmpl show ?thesis
      by (auto simp: generate_daily_post_def template_kinds list_all_iff)
  next
    case 2
    with story_resolved tmpl show ?thesis
      by (simp add: generate_daily_post_def template_kinds)
  next
    case 3
    obtain qc where "qc \<in> set questions" "choice r2 questions = Inr qc"
      using choice_in_set [OF catalogs_nonempty(3)] by blast
    with questions_resolved 3 tmpl show ?thesis
      by (auto simp: generate_daily_post_def template_kinds list_all_iff)
  next
    case 4
    obtain f where "f \<in> set features" "choice r2 features = Inr f"
      using choice_in_set [OF catalogs_nonempty(4)] by blast
    with features_resolved 4 tmpl show ?thesis
      by (auto simp: generate_daily_post_def template_kinds list_all_iff)
  qed
qed


text \<open>
  C7. Template substitution in the daily post is total: whatever template and catalog
  entry are drawn, \<open>generate_daily_post\<close> returns a post (it does not raise), and neither
  the title nor the content of that post has a placeholder left.
\<close>

theorem daily_post_substitution_total:
  "\<exists>p. generate_daily_post r1 r2 = Inr p
     \<and> \<not> has_placeholder (title p) \<and> \<not> has_placeholder (content p)"
  using generate_daily_post_resolved [of r1 r2]
  by (auto simp: resolved_def split: sum.splits)

theorem daily_post_substitution_total_witness:
  "\<exists>p. generate_daily_post 3 2 = Inr p
     \<and> \<not> has_placeholder (title p) \<and> \<not> has_placeholder (content p)"
  by (rule daily_post_substitution_total)

lemma fill_pin: "fill template title_kw content_kw = Inr p \<Longrightarrow> pin p = False"
  by (auto simp: fill_def split: sum.splits)

text \<open>
  C9. Every post that \<open>generate_daily_post\<close> returns has \<open>pin = False\<close>, whatever
  template and catalog entry are drawn.
\<close>

theorem daily_post_never_pinned: "generate_daily_post r1 r2 = Inr p \<Longrightarrow> pin p = False"
  by (auto simp: generate_daily_post_def dest: fill_pin split: sum.splits if_splits prod.splits)

theorem daily_post_never_pinned_witness:
  "\<exists>p. generate_daily_post 0 0 = Inr p \<and> pin p = False"
proof -
  obtain p where p: "generate_daily_post 0 0 = Inr p"
    using generate_daily_post_resolved [of 0 0]
    by (auto simp: resolved_def split: sum.splits)
  from daily_post_never_pinned [OF p] p show ?thesis by blast
qed

section \<open>Traces of the routine's steps\<close>

lemma adds_refl: "adds P w w"
  by (simp add: adds_def)

lemma adds_trans: "adds P w w1 \<Longrightarrow> adds P w1 w2 \<Longrightarrow> adds P w w2"
  by (auto simp: adds_def)

lemma adds_emit: "P e \<Longrightarrow> adds P w (emit e w)"
  by (simp add: adds_def emit_def)

lemma adds_now: "now env w = (t, w') \<Longrightarrow> adds P w w'"
  by (auto simp: adds_def now_def)

lemma adds_driver: "adds P w (w\<lparr>driver := b\<rparr>)"
  by (simp add: adds_def)

lemma adds_mono: "adds P w w' \<Longrightarrow> (\<And>e. P e \<Longrightarrow> Q e) \<Longrightarrow> adds Q w w'"
  by (auto simp: adds_def list_all_iff)

lemma adds_new_events: "adds P w w' \<Longrightarrow> list_all P (new_events w w')"
  by (auto simp: adds_def new_events_def)

lemma create_post_adds:
  "create_post env post w = (ok, w') \<Longrightarrow> adds (body_event (dry_run env)) w w'"
  by (auto simp: create_post_def pin_post_def Let_def
           intro!: adds_emit intro: adds_trans [OF adds_emit adds_emit]
           split: if_splits submit_outcome.splits)

lemma post_weekly_adds:
  "post_weekly env today_name specs n w = (n', w') \<Longrightarrow> adds (body_event (dry_run env)) w w'"
proof (induction specs arbitrary: n w)
  case Nil
  then show ?case by (simp add: adds_refl)
next
  case (Cons weekly rest)
  show ?case
  proof (cases "w_day weekly = today_name")
    case False
    with Cons show ?thesis by simp
  next
    case True
    obtain t w1 where t: "now env w = (t, w1)" by (cases "now env w")
    have a1: "adds (body_event (dry_run env)) w w1" by (rule adds_now [OF t])
    show ?thesis
    proof (cases "hour t < 12")
      case False
      with Cons True t a1 show ?thesis by (auto intro: adds_trans)
    next
      case lt: True
      obtain ok w2 where c: "create_post env (weekly_post weekly) w1 = (ok, w2)"
        by (cases "create_post env (weekly_post weekly) w1")
      from Cons.prems True t lt c
      have "post_weekly env today_name rest (if ok then Suc n else n) w2 = (n', w')" by simp
      from Cons.IH [OF this] create_post_adds [OF c] a1 show ?thesis
        by (blast intro: adds_trans)
    qed
  qed
qed

lemma post_daily_adds:
  assumes "post_daily env n w = (r, w')"
  shows "adds (body_event (dry_run env)) w w'"
proof -
  obtain due w1 where d: "(if n = 0 then (True, w)
      else (case now env w of (t, w1) \<Rightarrow> (14 \<le> hour t, w1))) = (due, w1)"
    by (cases "if n = 0 then (True, w) else (case now env w of (t, w1) \<Rightarrow> (14 \<le> hour t, w1))")
  have a1: "adds (body_event (dry_run env)) w w1"
    using d by (auto simp: adds_refl split: if_splits prod.splits dest: adds_now)
  from assms d have "w' = w1 \<or> (\<exists>p ok. create_post env p w1 = (ok, w'))"
    by (auto simp: post_daily_def split: if_splits sum.splits prod.splits)
  with a1 show ?thesis
    by (auto intro: adds_trans dest: create_post_adds)
qed

lemma comment_loop_adds:
  "comment_loop env k cs n w = (n', w') \<Longrightarrow> adds (body_event False) w w'"
proof (induction cs arbitrary: n w)
  case Nil
  then show ?case by (simp add: adds_refl)
next
  case (Cons c cs)
  have e1: "adds (body_event False) w (emit (ReplyAttempt c) w)"
    by (rule adds_emit) simp
  have e2: "adds (body_event False) w (emit (ReplyPosted c s) (emit (ReplyAttempt c) w))" for s
    by (rule adds_trans [OF e1 adds_emit]) simp
  have e3: "adds (body_event False) w (emit LogPostError w)"
    by (rule adds_emit) simp
  have e4: "adds (body_event False) w (emit LogPostError (emit (ReplyAttempt c) w))"
    by (rule adds_trans [OF e1 adds_emit]) simp
  from Cons.prems show ?case
    by (auto simp: Let_def e2 e3 e4 split: if_splits option.splits bool.splits sum.splits
             dest!: Cons.IH intro: adds_trans [OF e2])
qed

lemma post_loop_adds:
  "post_loop env k ps n w = (n', w') \<Longrightarrow> adds (body_event False) w w'"
proof (induction ps arbitrary: n w)
  case Nil
  then show ?case by (simp add: adds_refl)
next
  case (Cons p ps)
  obtain post_url pg where p: "p = (post_url, pg)" by (cases p)
  have e1: "adds (body_event False) w (emit (VisitPost post_url) w)"
    by (rule adds_emit) simp
  have e2: "adds (body_event False) w (emit LogPostError (emit (VisitPost post_url) w))"
    by (rule adds_trans [OF e1 adds_emit]) simp
  from Cons.prems show ?case
    unfolding p
    by (auto simp: Let_def adds_refl split: if_splits option.splits prod.splits
             dest!: Cons.IH comment_loop_adds intro: adds_trans [OF e1] adds_trans [OF e2] adds_trans)
qed

lemma extract_urls_adds:
  "extract_urls ps w = (post_urls, w') \<Longrightarrow> adds (body_event False) w w'"
proof (induction ps arbitrary: post_urls w)
  case Nil
  then show ?case by (simp add: adds_refl)
next
  case (Cons p ps)
  have e1: "adds (body_event False) w (emit LogUrlError w)"
    by (rule adds_emit) simp
  from Cons.prems show ?case
    by (auto split: href_outcome.splits prod.splits dest!: Cons.IH intro: adds_trans [OF e1])
qed

lemma reply_to_comments_adds:
  assumes "reply_to_comments env k w = (r, w')"
  shows "adds (body_event (dry_run env)) w w'"
proof (cases "dry_run env")
  case True
  with assms show ?thesis
    by (auto simp: reply_to_comments_def intro!: adds_emit)
next
  case False
  have e1: "adds (body_event False) w (emit VisitListing w)"
    by (rule adds_emit) simp
  have e2: "adds (body_event False) w (emit LogScanError (emit VisitListing w))"
    by (rule adds_trans [OF e1 adds_emit]) simp
  show ?thesis
  proof (cases "listing_loads env \<and> listing env \<noteq> None")
    case idle: False
    with assms False e1 e2 show ?thesis
      by (auto simp: reply_to_comments_def Let_def split: if_splits)
  next
    case True
    then obtain post_elements where l: "listing_loads env" "listing env = Some post_elements"
      by auto
    obtain post_urls w2 where x: "extract_urls (take 10 post_elements) (emit VisitListing w) = (post_urls, w2)"
      by (cases "extract_urls (take 10 post_elements) (emit VisitListing w)")
    obtain n3 w3 where q: "post_loop env k post_urls 0 w2 = (n3, w3)"
      by (cases "post_loop env k post_urls 0 w2")
    from assms False l x q have "w' = w3"
      by (simp add: reply_to_comments_def Let_def)
    with e1 extract_urls_adds [OF x] post_loop_adds [OF q] False show ?thesis
      by (auto intro: adds_trans)
  qed
qed

lemma track_weekly_frame:
  "track_weekly env today_name posts_made specs state w = (r, w') \<Longrightarrow>
     trace w' = trace w \<and> STATE_FILE w' = STATE_FILE w \<and> driver w' = driver w
     \<and> (\<forall>state' k. r = Inr state' \<and> k \<noteq> ''weekly_threads'' \<longrightarrow> map_of state' k = map_of state k)"
proof (induction specs arbitrary: state w)
  case Nil
  then show ?case by auto
next
  case (Cons weekly rest)
  show ?case
  proof (cases "w_day weekly = today_name \<and> 0 < posts_made")
    case False
    with Cons.prems
    have "track_weekly env today_name posts_made rest state w = (r, w')" by auto
    from Cons.IH [OF this] show ?thesis .
  next
    case True
    let ?w1 = "w\<lparr>ticks := Suc (ticks w)\<rparr>"
    show ?thesis
    proof (cases "\<exists>threads. map_of state ''weekly_threads'' = Some (JDict threads)")
      case False
      with Cons.prems True have "w' = ?w1" and "\<exists>e. r = Inl e"
        by (auto simp: now_def split: option.splits json.splits)
      then show ?thesis by auto
    next
      case dict: True
      then obtain threads where th: "map_of state ''weekly_threads'' = Some (JDict threads)"
        by blast
      let ?state1 = "AList.update ''weekly_threads''
        (JDict (AList.update (w_day weekly) (JStr (isoformat (clock env (ticks w)))) threads)) state"
      from Cons.prems True th
      have "track_weekly env today_name posts_made rest ?state1 ?w1 = (r, w')"
        by (simp add: now_def)
      from Cons.IH [OF this] show ?thesis
        by (simp add: update_conv')
    qed
  qed
qed

lemma update_state_frame:
  "k \<notin> {''last_run'', ''posts_made'', ''weekly_threads''} \<Longrightarrow>
     map_of (update_state today posts_made state) k = map_of state k"
  by (simp add: update_state_def Let_def update_conv')

lemma not_saved: "list_all (\<lambda>e. \<not> state_write e) es \<Longrightarrow> saved es = []"
  by (induction es rule: saved.induct) auto

lemma saved_append: "saved (es @ es') = saved es @ saved es'"
  by (induction es rule: saved.induct) auto

lemma body_event_quiet: "body_event dry e \<Longrightarrow> \<not> state_write e"
  by (cases e) auto

lemma try_body_not_skipped: "fst (try_body env state today today_name w) \<noteq> Skipped"
  by (simp add: try_body_def split: prod.splits sum.splits bool.splits option.splits)

lemma finally_quit_fst: "fst (finally_quit r) = fst r"
  by (simp add: finally_quit_def split: prod.splits)

lemma skipped_iff:
  "fst (run_daily_routine env w) = Skipped \<longleftrightarrow>
     (\<exists>state. load_state env w = Inr (JDict state)
        \<and> map_of state ''last_run'' = Some (JStr (date (clock env (ticks w))))
        \<and> \<not> dry_run env)"
  by (auto simp: run_daily_routine_def now_def finally_quit_fst try_body_not_skipped
           split: sum.splits json.splits)

lemma load_state_cong:
  "json_loads env' = json_loads env \<Longrightarrow> STATE_FILE w' = STATE_FILE w \<Longrightarrow>
     load_state env' w' = load_state env w"
  by (auto simp: load_state_def loads_def split: sum.splits option.splits)

section \<open>The routine's gates\<close>

text \<open>
  C4. For every date \<open>d\<close>: if the persisted state is a record whose \<^verbatim>\<open>last_run\<close> is
  \<open>d\<close>, and the routine is invoked on date \<open>d\<close> (the first reading of the clock) with
  dry-run off, then the run is skipped: it adds no event to the trace (so no posting and
  no reply action, and no browser session either) and leaves the state file as it was.
\<close>

theorem duplicate_run_skipped:
  assumes "load_state env w = Inr (JDict state)"
    and "map_of state ''last_run'' = Some (JStr d)"
    and "date (clock env (ticks w)) = d"
    and "\<not> dry_run env"
  shows "fst (run_daily_routine env w) = Skipped
    \<and> new_events w (snd (run_daily_routine env w)) = []
    \<and> STATE_FILE (snd (run_daily_routine env w)) = STATE_FILE w"
  using assms by (simp add: run_daily_routine_def now_def new_events_def)

theorem duplicate_run_skipped_witness:
  "fst (run_daily_routine ran_today_env ran_today) = Skipped
    \<and> new_events ran_today (snd (run_daily_routine ran_today_env ran_today)) = []
    \<and> STATE_FILE (snd (run_daily_routine ran_today_env ran_today)) = STATE_FILE ran_today"
proof (rule duplicate_run_skipped)
  show "load_state ran_today_env ran_today
      = Inr (JDict [(''last_run'', JStr ''2024-01-01''), (''posts_made'', JInt 1)])"
    by code_simp
  show "map_of [(''last_run'', JStr ''2024-01-01''), (''posts_made'', JInt 1)] ''last_run''
      = Some (JStr ''2024-01-01'')"
    by simp
  show "date (clock ran_today_env (ticks ran_today)) = ''2024-01-01''"
    by code_simp
  show "\<not> dry_run ran_today_env"
    by code_simp
qed

lemma login_failed_run:
  assumes "login_result env \<noteq> LoginTrue" and "run_daily_routine env w = (out, w')"
  shows "out \<noteq> Completed \<and> STATE_FILE w' = STATE_FILE w \<and> adds session_event w w'"
  using assms
  by (auto simp: run_daily_routine_def try_body_def finally_quit_def setup_browser_def
        login_def now_def emit_def adds_def Let_def
      split: sum.splits json.splits if_splits browser_outcome.splits login_outcome.splits)

text \<open>
  C5. If login fails (it returns False, or loading the login page raises), the run does
  not complete, the only events it adds are those of the session (open, login, quit), so
  no post, no reply and no call of \<^verbatim>\<open>save_state\<close>, and the state file is unchanged.
  Hence a later invocation that reads the same date is not skipped, provided this one
  was not: the file still holds what it held.
\<close>

theorem login_failure_aborts:
  assumes "login_result env \<noteq> LoginTrue"
    and "run_daily_routine env w = (out, w')"
  shows "out \<noteq> Completed
    \<and> STATE_FILE w' = STATE_FILE w
    \<and> list_all session_event (new_events w w')
    \<and> (\<forall>env'. out \<noteq> Skipped \<and> json_loads env' = json_loads env \<and> dry_run env' = dry_run env
          \<and> date (clock env' (ticks w')) = date (clock env (ticks w))
          \<longrightarrow> fst (run_daily_routine env' w') \<noteq> Skipped)"
proof -
  from login_failed_run [OF assms]
  have a: "out \<noteq> Completed" and f: "STATE_FILE w' = STATE_FILE w" and t: "adds session_event w w'"
    by blast+
  have "fst (run_daily_routine env' w') \<noteq> Skipped"
    if "out \<noteq> Skipped" and "json_loads env' = json_loads env" and "dry_run env' = dry_run env"
      and "date (clock env' (ticks w')) = date (clock env (ticks w))" for env'
  proof -
    from that(1) assms(2) have "fst (run_daily_routine env w) \<noteq> Skipped" by simp
    moreover have "load_state env' w' = load_state env w"
      by (rule load_state_cong [OF that(2) f])
    ultimately show ?thesis
      using that(3,4) by (simp add: skipped_iff)
  qed
  with a f adds_new_events [OF t] show ?thesis by blast
qed

theorem login_failure_aborts_witness:
  "fst (run_daily_routine locked_out_env start) = LoginFailed
    \<and> STATE_FILE (snd (run_daily_routine locked_out_env start)) = STATE_FILE start
    \<and> list_all session_event (new_events start (snd (run_daily_routine locked_out_env start)))
    \<and> fst (run_daily_routine locked_out_env (snd (run_daily_routine locked_out_env start))) \<noteq> Skipped"
proof -
  have l: "login_result locked_out_env \<noteq> LoginTrue"
    by code_simp
  have o: "fst (run_daily_routine locked_out_env start) = LoginFailed"
    by code_simp
  have d: "date (clock locked_out_env (ticks (snd (run_daily_routine locked_out_env start))))
      = date (clock locked_out_env (ticks start))"
    by code_simp
  from login_failure_aborts [OF l surjective_pairing, of start] o d show ?thesis
    by auto
qed

section \<open>The run-state store\<close>

lemma load_state_recovers:
  "STATE_FILE w \<noteq> Inaccessible \<Longrightarrow>
     load_state env w =
       Inr (case STATE_FILE w of
              Text s \<Rightarrow> (case json_loads env s of Some v \<Rightarrow> v | None \<Rightarrow> JDict [])
            | _ \<Rightarrow> JDict [])"
  by (simp add: load_state_def exists_file_def read_text_def loads_def
           split: state_file.splits option.splits)

text \<open>
  C8 does not hold of the code. The handler of \<open>load_state\<close> covers reading and
  decoding, so a missing, unreadable or undecodable file gives the empty state
  (\<open>load_state_recovers\<close>); but the existence test stands before the \<^verbatim>\<open>try\<close>, and when
  it raises, \<open>load_state\<close> raises, and the routine with it.
\<close>

theorem load_state_raises:
  "load_state plain_env sealed = Inl OSError
   \<and> fst (run_daily_routine plain_env sealed) = Raised OSError
   \<and> new_events sealed (snd (run_daily_routine plain_env sealed)) = []"
  by code_simp

section \<open>The whole run\<close>

lemma setup_browser_adds: "setup_browser env w = (r, w') \<Longrightarrow> adds (step_event dry) w w'"
  by (auto simp: setup_browser_def step_event_def adds_refl intro!: adds_emit
           split: browser_outcome.splits)

lemma login_adds: "login env w = (r, w') \<Longrightarrow> adds (step_event dry) w w'"
  by (auto simp: login_def step_event_def Let_def intro!: adds_emit split: login_outcome.splits)

lemma body_adds: "adds (body_event dry) w w' \<Longrightarrow> adds (step_event dry) w w'"
  by (erule adds_mono) (simp add: step_event_def)

lemma try_body_cases:
  assumes "try_body env state today today_name w = (out, w')"
  shows "(out \<noteq> Completed \<and> adds (step_event (dry_run env)) w w')
    \<or> (\<exists>w6 state'. out = Completed \<and> adds (step_event (dry_run env)) w w6
          \<and> w' = save_state env (JDict state') w6 \<and> untouched state state')"
proof -
  let ?A = "adds (step_event (dry_run env))"
  obtain r1 w1 where 1: "setup_browser env w = (r1, w1)"
    by (cases "setup_browser env w")
  have a1: "?A w w1" by (rule setup_browser_adds [OF 1])
  show ?thesis
  proof (cases r1)
    case (Inl e)
    with assms 1 a1 show ?thesis by (auto simp: try_body_def)
  next
    case (Inr u)
    obtain r2 w2 where 2: "login env (w1\<lparr>driver := True\<rparr>) = (r2, w2)"
      by (cases "login env (w1\<lparr>driver := True\<rparr>)")
    have a2: "?A w w2"
      by (rule adds_trans [OF adds_trans [OF a1 adds_driver] login_adds [OF 2]])
    show ?thesis
    proof (cases "r2 = Inr True")
      case False
      with assms 1 Inr 2 a2 show ?thesis
        by (auto simp: try_body_def split: sum.splits bool.splits)
    next
      case True
      obtain n3 w3 where 3: "post_weekly env today_name WEEKLY_THREADS 0 w2 = (n3, w3)"
        by (cases "post_weekly env today_name WEEKLY_THREADS 0 w2")
      have a3: "?A w w3"
        by (rule adds_trans [OF a2 body_adds [OF post_weekly_adds [OF 3]]])
      obtain r4 w4 where 4: "post_daily env n3 w3 = (r4, w4)"
        by (cases "post_daily env n3 w3")
      have a4: "?A w w4"
        by (rule adds_trans [OF a3 body_adds [OF post_daily_adds [OF 4]]])
      show ?thesis
      proof (cases r4)
        case (Inl e)
        with assms 1 Inr 2 True 3 4 a4 show ?thesis by (auto simp: try_body_def)
      next
        case posts: (Inr posts_made)
        obtain r5 w5 where 5: "reply_to_comments env 3 w4 = (r5, w5)"
          by (cases "reply_to_comments env 3 w4")
        have a5: "?A w w5"
          by (rule adds_trans [OF a4 body_adds [OF reply_to_comments_adds [OF 5]]])
        show ?thesis
        proof (cases r5)
          case (Some e)
          with assms 1 Inr 2 True 3 4 posts 5 a5 show ?thesis by (auto simp: try_body_def)
        next
          case None
          obtain r6 w6 where 6: "track_weekly env today_name posts_made WEEKLY_THREADS
              (update_state today posts_made state) w5 = (r6, w6)"
            by (cases "track_weekly env today_name posts_made WEEKLY_THREADS
              (update_state today posts_made state) w5")
          note f = track_weekly_frame [OF 6]
          from f have "trace w6 = trace w5" by simp
          with a5 have a6: "?A w w6" by (simp add: adds_def)
          show ?thesis
          proof (cases r6)
            case (Inl e)
            with assms 1 Inr 2 True 3 4 posts 5 None 6 a6 show ?thesis
              by (auto simp: try_body_def)
          next
            case state': (Inr state')
            from f state' have "untouched state state'"
              by (simp add: untouched_def update_state_frame)
            with assms 1 Inr 2 True 3 4 posts 5 None 6 state' a6 show ?thesis
              by (auto simp: try_body_def)
          qed
        qed
      qed
    qed
  qed
qed

lemma run_cases:
  assumes "run_daily_routine env w = (out, w')"
  shows "(out \<noteq> Completed \<and> adds (step_event (dry_run env)) w w')
    \<or> (\<exists>state state' es q. out = Completed \<and> load_state env w = Inr (JDict state)
          \<and> trace w' = trace w @ es @ [SaveState (JDict state')] @ q
          \<and> list_all (step_event (dry_run env)) es \<and> list_all (step_event (dry_run env)) q
          \<and> untouched state state'
          \<and> (write_ok env \<longrightarrow> STATE_FILE w' = Text (json_dumps env (JDict state'))))"
proof (cases "\<exists>state. load_state env w = Inr (JDict state)
    \<and> \<not> (map_of state ''last_run'' = Some (JStr (date (clock env (ticks w)))) \<and> \<not> dry_run env)")
  case False
  with assms have "out \<noteq> Completed" and "trace w' = trace w"
    by (auto simp: run_daily_routine_def now_def split: sum.splits json.splits if_splits)
  then show ?thesis by (simp add: adds_def)
next
  case True
  then obtain state where l: "load_state env w = Inr (JDict state)"
    and n: "\<not> (map_of state ''last_run'' = Some (JStr (date (clock env (ticks w)))) \<and> \<not> dry_run env)"
    by blast
  let ?w1 = "w\<lparr>ticks := Suc (Suc (ticks w))\<rparr>"
  obtain out1 w1' where t: "try_body env state (date (clock env (ticks w)))
      (weekday (clock env (Suc (ticks w)))) ?w1 = (out1, w1')"
    by (cases "try_body env state (date (clock env (ticks w)))
      (weekday (clock env (Suc (ticks w)))) ?w1")
  from assms l n t have out: "out = out1"
    and w': "w' = (if driver w1' then emit QuitSession w1' else w1')"
    by (auto simp: run_daily_routine_def now_def finally_quit_def)
  have q: "step_event (dry_run env) QuitSession"
    by (simp add: step_event_def)
  from try_body_cases [OF t] show ?thesis
  proof
    assume "out1 \<noteq> Completed \<and> adds (step_event (dry_run env)) ?w1 w1'"
    with out w' q show ?thesis
      by (auto simp: adds_def emit_def)
  next
    assume "\<exists>w6 state'. out1 = Completed \<and> adds (step_event (dry_run env)) ?w1 w6
          \<and> w1' = save_state env (JDict state') w6 \<and> untouched state state'"
    then obtain w6 state' es where c: "out1 = Completed" and e: "trace w6 = trace w @ es"
      and es: "list_all (step_event (dry_run env)) es"
      and s: "w1' = save_state env (JDict state') w6" and u: "untouched state state'"
      by (auto simp: adds_def)
    from s w' have f: "write_ok env \<longrightarrow> STATE_FILE w' = Text (json_dumps env (JDict state'))"
      by (simp add: save_state_def emit_def Let_def)
    from s e have "trace w1' = trace w @ es @ [SaveState (JDict state')]"
      by (simp add: save_state_def emit_def Let_def)
    with w' have "trace w' = trace w @ es @ [SaveState (JDict state')] @ []
        \<or> trace w' = trace w @ es @ [SaveState (JDict state')] @ [QuitSession]"
      by (simp add: emit_def)
    then show ?thesis
    proof
      assume "trace w' = trace w @ es @ [SaveState (JDict state')] @ []"
      with out c l es u f show ?thesis
        by (intro disjI2 exI [of _ state] exI [of _ state'] exI [of _ es] exI [of _ "[]"]) simp
    next
      assume "trace w' = trace w @ es @ [SaveState (JDict state')] @ [QuitSession]"
      with out c l es u q f show ?thesis
        by (intro disjI2 exI [of _ state] exI [of _ state'] exI [of _ es]
            exI [of _ "[QuitSession]"]) simp
    qed
  qed
qed

lemma step_event_quiet: "step_event dry e \<Longrightarrow> \<not> state_write e"
  by (cases e) (auto simp: step_event_def)

lemma step_event_saved: "list_all (step_event dry) es \<Longrightarrow> saved es = []"
  by (rule not_saved) (auto simp: list_all_iff dest: step_event_quiet)

lemma step_event_dry: "step_event True e \<Longrightarrow> \<not> posting_action e \<and> \<not> reply_action e"
  by (cases e) (auto simp: step_event_def)

lemma step_events_dry:
  "list_all (step_event True) es \<Longrightarrow> list_all (\<lambda>e. \<not> posting_action e \<and> \<not> reply_action e) es"
  by (auto simp: list_all_iff dest: step_event_dry)

text \<open>
  C10. A run that completes loaded a dict and calls \<^verbatim>\<open>save_state\<close> once, with a dict
  in which every key other than \<^verbatim>\<open>last_run\<close>, \<^verbatim>\<open>posts_made\<close> and
  \<^verbatim>\<open>weekly_threads\<close> reads as it did in the loaded one; when the write succeeds, the
  file holds that dict.
\<close>

theorem completed_run_keeps_other_keys:
  assumes "run_daily_routine env w = (Completed, w')"
  shows "\<exists>state state'. load_state env w = Inr (JDict state)
    \<and> saved (new_events w w') = [JDict state']
    \<and> (write_ok env \<longrightarrow> STATE_FILE w' = Text (json_dumps env (JDict state')))
    \<and> (\<forall>k. k \<notin> {''last_run'', ''posts_made'', ''weekly_threads''}
          \<longrightarrow> map_of state' k = map_of state k)"
proof -
  from run_cases [OF assms] obtain state state' es q
    where l: "load_state env w = Inr (JDict state)"
      and t: "trace w' = trace w @ es @ [SaveState (JDict state')] @ q"
      and es: "list_all (step_event (dry_run env)) es"
      and q: "list_all (step_event (dry_run env)) q"
      and u: "untouched state state'"
      and f: "write_ok env \<longrightarrow> STATE_FILE w' = Text (json_dumps env (JDict state'))"
    by blast
  from t have "saved (new_events w w') = saved es @ [JDict state'] @ saved q"
    by (simp add: new_events_def saved_append)
  with es q have "saved (new_events w w') = [JDict state']"
    by (simp add: step_event_saved)
  with l u f show ?thesis
    unfolding untouched_def by blast
qed

theorem completed_run_keeps_other_keys_witness:
  "fst (run_daily_routine noted_env ran_today) = Completed
   \<and> (\<exists>state state'. load_state noted_env ran_today = Inr (JDict state)
        \<and> saved (new_events ran_today (snd (run_daily_routine noted_env ran_today))) = [JDict state']
        \<and> map_of state ''note'' = Some (JStr ''keep me'')
        \<and> map_of state' ''note'' = Some (JStr ''keep me''))"
proof -
  have c: "fst (run_daily_routine noted_env ran_today) = Completed"
    by code_simp
  then have "run_daily_routine noted_env ran_today
      = (Completed, snd (run_daily_routine noted_env ran_today))"
    by (metis prod.collapse)
  from completed_run_keeps_other_keys [OF this]
  obtain state state' where l: "load_state noted_env ran_today = Inr (JDict state)"
    and s: "saved (new_events ran_today (snd (run_daily_routine noted_env ran_today))) = [JDict state']"
    and k: "map_of state' ''note'' = map_of state ''note''"
    by auto
  have "load_state noted_env ran_today
      = Inr (JDict [(''note'', JStr ''keep me''), (''last_run'', JStr ''2023-12-31'')])"
    by code_simp
  with l have "map_of state ''note'' = Some (JStr ''keep me'')"
    by auto
  with c l s k show ?thesis by auto
qed

text \<open>
  C1, as amended. With the dry-run flag on, the routine is never skipped as a duplicate,
  and no post is submitted or pinned and no listing or post page is visited or replied
  to through the driver, for every initial state and date: \<open>create_post\<close> only logs
  the post and reports success, and the reply step only logs.
\<close>

theorem dry_run_only_logs:
  assumes "dry_run env"
  shows "create_post env post w = (True, emit (DryRunPost post) w)
    \<and> reply_to_comments env max_replies w = (None, emit DryRunReplies w)
    \<and> fst (run_daily_routine env w) \<noteq> Skipped
    \<and> list_all (\<lambda>e. \<not> posting_action e \<and> \<not> reply_action e)
         (new_events w (snd (run_daily_routine env w)))"
proof -
  obtain out w' where r: "run_daily_routine env w = (out, w')"
    by (cases "run_daily_routine env w")
  have "list_all (\<lambda>e. \<not> posting_action e \<and> \<not> reply_action e) (new_events w w')"
    using run_cases [OF r]
  proof
    assume "out \<noteq> Completed \<and> adds (step_event (dry_run env)) w w'"
    with assms show ?thesis
      by (auto simp: adds_def new_events_def intro: step_events_dry)
  next
    assume "\<exists>state state' es q. out = Completed \<and> load_state env w = Inr (JDict state)
          \<and> trace w' = trace w @ es @ [SaveState (JDict state')] @ q
          \<and> list_all (step_event (dry_run env)) es \<and> list_all (step_event (dry_run env)) q
          \<and> untouched state state'
          \<and> (write_ok env \<longrightarrow> STATE_FILE w' = Text (json_dumps env (JDict state')))"
    then obtain state' es q where "trace w' = trace w @ es @ [SaveState (JDict state')] @ q"
      and "list_all (step_event (dry_run env)) es" and "list_all (step_event (dry_run env)) q"
      by blast
    with assms show ?thesis
      by (simp add: new_events_def step_events_dry)
  qed
  moreover from assms have "out \<noteq> Skipped"
    using skipped_iff [of env w] r by simp
  ultimately show ?thesis
    using assms r by (simp add: create_post_def reply_to_comments_def)
qed

theorem dry_run_only_logs_witness:
  "dry_run dry_env
   \<and> fst (run_daily_routine dry_env start) = Completed
   \<and> list_all (\<lambda>e. \<not> posting_action e \<and> \<not> reply_action e)
        (new_events start (snd (run_daily_routine dry_env start)))"
proof -
  have d: "dry_run dry_env" by code_simp
  have "fst (run_daily_routine dry_env start) = Completed" by code_simp
  with d dry_run_only_logs [OF d, of _ start] show ?thesis by simp
qed

text \<open>
  The claim as stated fails: \<open>run_daily_routine\<close> guards only the duplicate check with
  the flag. On a Monday morning with no state file, a dry run opens a browser session,
  logs in, calls \<^verbatim>\<open>save_state\<close> and leaves a state file behind.
\<close>

theorem dry_run_counterexample:
  "dry_run dry_env
   \<and> OpenSession \<in> set (new_events start (snd (run_daily_routine dry_env start)))
   \<and> Login \<in> set (new_events start (snd (run_daily_routine dry_env start)))
   \<and> saved (new_events start (snd (run_daily_routine dry_env start))) \<noteq> []
   \<and> STATE_FILE (snd (run_daily_routine dry_env start)) \<noteq> STATE_FILE start"
  by code_simp

section \<open>Weekly threads\<close>

lemma posts_of_append: "posts_of (es @ es') = posts_of es @ posts_of es'"
  by (induction es rule: posts_of.induct) auto

lemma create_post_posts:
  "create_post env post w = (ok, w') \<Longrightarrow> \<exists>es. trace w' = trace w @ es \<and> posts_of es = [post]"
  by (auto simp: create_post_def pin_post_def emit_def Let_def
           split: if_splits submit_outcome.splits)

lemma post_weekly_posts:
  assumes "\<forall>k. hour (clock env k) = h"
  shows "post_weekly env today_name specs n w = (n', w') \<Longrightarrow>
     \<exists>es. trace w' = trace w @ es
       \<and> posts_of es = map weekly_post (filter (\<lambda>s. w_day s = today_name \<and> h < 12) specs)"
proof (induction specs arbitrary: n w)
  case Nil
  then show ?case by simp
next
  case (Cons weekly rest)
  let ?w1 = "w\<lparr>ticks := Suc (ticks w)\<rparr>"
  show ?case
  proof (cases "w_day weekly = today_name \<and> h < 12")
    case False
    with Cons.prems assms
    have "post_weekly env today_name rest n w = (n', w')
        \<or> post_weekly env today_name rest n ?w1 = (n', w')"
      by (auto simp: now_def split: if_splits)
    then obtain es where "trace w' = trace w @ es"
      and "posts_of es = map weekly_post (filter (\<lambda>s. w_day s = today_name \<and> h < 12) rest)"
      by (auto dest!: Cons.IH)
    with False show ?thesis by auto
  next
    case True
    obtain ok w2 where c: "create_post env (weekly_post weekly) ?w1 = (ok, w2)"
      by (cases "create_post env (weekly_post weekly) ?w1")
    with Cons.prems True assms
    have "post_weekly env today_name rest (if ok then Suc n else n) w2 = (n', w')"
      by (simp add: now_def)
    from Cons.IH [OF this] obtain es where es: "trace w' = trace w2 @ es"
      and p: "posts_of es = map weekly_post (filter (\<lambda>s. w_day s = today_name \<and> h < 12) rest)"
      by blast
    from create_post_posts [OF c] obtain es1 where "trace w2 = trace w @ es1"
      and "posts_of es1 = [weekly_post weekly]"
      by auto
    with es p True have "trace w' = trace w @ (es1 @ es)"
      and "posts_of (es1 @ es)
        = map weekly_post (filter (\<lambda>s. w_day s = today_name \<and> h < 12) (weekly # rest))"
      by (simp_all add: posts_of_append)
    then show ?thesis by blast
  qed
qed

text \<open>
  C6. With the hour fixed at \<open>h\<close>, the loop over the weekly specs hands to
  \<open>create_post\<close> the posts of exactly those specs whose day is today's weekday, and
  only when \<open>h < 12\<close>, in catalog order. On a Monday at 09:00 that is the Monday spec
  and no other (the witness).
\<close>

theorem weekly_selection:
  assumes "\<forall>k. hour (clock env k) = h"
  shows "posts_of (new_events w (snd (post_weekly env today_name specs n w)))
    = map weekly_post (filter (\<lambda>s. w_day s = today_name \<and> h < 12) specs)"
proof -
  obtain n' w' where r: "post_weekly env today_name specs n w = (n', w')"
    by (cases "post_weekly env today_name specs n w")
  from post_weekly_posts [OF assms r] show ?thesis
    by (auto simp: r new_events_def)
qed

theorem weekly_selection_witness:
  "posts_of (new_events start (snd (post_weekly plain_env ''monday'' WEEKLY_THREADS 0 start)))
    = [weekly_post (WEEKLY_THREADS ! 0)]"
proof -
  have h: "\<forall>k. hour (clock plain_env k) = 9"
    by (simp add: plain_env_def monday_morning_def)
  have "map weekly_post (filter (\<lambda>s. w_day s = ''monday'' \<and> (9::nat) < 12) WEEKLY_THREADS)
      = [weekly_post (WEEKLY_THREADS ! 0)]"
    by code_simp
  with weekly_selection [OF h, of start "''monday''" WEEKLY_THREADS 0] show ?thesis
    by simp
qed

text \<open>
  C2 does not hold of the code. On a Monday at 09:00, with the weekly submission failing
  its URL check and the daily post succeeding, the run saves a timestamp under
  \<^verbatim>\<open>weekly_threads['monday']\<close>: the tracking loop tests \<^verbatim>\<open>posts_made > 0\<close>, which
  the daily post makes true.
\<close>

theorem weekly_timestamp_without_weekly_post:
  "fst (run_daily_routine weekly_fails_env start) = Completed
   \<and> map post_type (posts_of (new_events start (snd (run_daily_routine weekly_fails_env start))))
       = [''weekly'', ''tip'']
   \<and> submit weekly_fails_env (weekly_post (WEEKLY_THREADS ! 0)) = UrlCheckFailed
   \<and> saved (new_events start (snd (run_daily_routine weekly_fails_env start)))
       = [JDict [(''last_run'', JStr ''2024-01-01''), (''posts_made'', JInt 1),
                 (''weekly_threads'', JDict [(''monday'', JStr ''2024-01-01T09:00:00'')])]]"
  by code_simp

section \<open>The comment-reply step\<close>

lemma attempted_append: "attempted (es @ es') = attempted es @ attempted es'"
  by (induction es rule: attempted.induct) auto

lemma replied_append: "replied (es @ es') = replied es @ replied es'"
  by (induction es rule: replied.induct) auto

lemma generate_reply_total: "\<exists>s. generate_reply r = Inr s"
  using choice_in_set [OF catalogs_nonempty(5), of r] by (auto simp: generate_reply_def)

text \<open>The six ways one round of the comment loop can go.\<close>

lemma comment_loop_own:
  "author c \<noteq> None \<and> author c = REDDIT_USERNAME env \<Longrightarrow>
     comment_loop env k (c # cs) n w = comment_loop env k cs n w"
  by auto

lemma comment_loop_lookup_raises:
  "\<not> (author c \<noteq> None \<and> author c = REDDIT_USERNAME env) \<Longrightarrow> has_replies c = None \<Longrightarrow>
     comment_loop env k (c # cs) n w = (n, emit LogPostError w)"
  by auto

lemma comment_loop_answered:
  "\<not> (author c \<noteq> None \<and> author c = REDDIT_USERNAME env) \<Longrightarrow> has_replies c = Some True \<Longrightarrow>
     comment_loop env k (c # cs) n w = comment_loop env k cs n w"
  by auto

lemma comment_loop_reply_raises:
  "\<not> (author c \<noteq> None \<and> author c = REDDIT_USERNAME env) \<Longrightarrow> has_replies c = Some False \<Longrightarrow>
     \<not> reply_works c \<Longrightarrow>
     comment_loop env k (c # cs) n w = (n, emit LogPostError (emit (ReplyAttempt c) w))"
  by (auto simp: Let_def)

lemma comment_loop_last:
  "\<not> (author c \<noteq> None \<and> author c = REDDIT_USERNAME env) \<Longrightarrow> has_replies c = Some False \<Longrightarrow>
     reply_works c \<Longrightarrow> generate_reply (reply_draw env n) = Inr s \<Longrightarrow> k \<le> int (Suc n) \<Longrightarrow>
     comment_loop env k (c # cs) n w
       = (Suc n, emit (ReplyPosted c s) (emit (ReplyAttempt c) w))"
  by (auto simp: Let_def)

lemma comment_loop_more:
  "\<not> (author c \<noteq> None \<and> author c = REDDIT_USERNAME env) \<Longrightarrow> has_replies c = Some False \<Longrightarrow>
     reply_works c \<Longrightarrow> generate_reply (reply_draw env n) = Inr s \<Longrightarrow> \<not> k \<le> int (Suc n) \<Longrightarrow>
     comment_loop env k (c # cs) n w
       = comment_loop env k cs (Suc n) (emit (ReplyPosted c s) (emit (ReplyAttempt c) w))"
  by (auto simp: Let_def)

text \<open>What each of them contributes to the scan.\<close>

lemma scanned_nil: "scanned env k [] n n []"
  by (simp add: scanned_def)

lemma scanned_full: "k \<le> int n \<Longrightarrow> scanned env k cs n n []"
proof -
  assume "k \<le> int n"
  then have "nat k - n = 0" by arith
  then show ?thesis by (simp add: scanned_def)
qed

lemma scanned_skip:
  "\<not> eligible env c \<Longrightarrow> scanned env k cs n n' es \<Longrightarrow> scanned env k (c # cs) n n' es"
  by (simp add: scanned_def)

lemma scanned_lookup_raises: "scanned env k cs n n [LogPostError]"
  by (simp add: scanned_def)

lemma scanned_reply_raises:
  "eligible env c \<Longrightarrow> scanned env k (c # cs) n n [ReplyAttempt c, LogPostError]"
  by (simp add: scanned_def)

lemma scanned_last:
  assumes "eligible env c" and "int n < k" and "k \<le> int (Suc n)"
  shows "scanned env k (c # cs) n (Suc n) [ReplyAttempt c, ReplyPosted c s]"
proof -
  from assms(2,3) have "nat k - n = Suc 0" by arith
  with assms(1) show ?thesis by (simp add: scanned_def)
qed

lemma scanned_more:
  assumes "eligible env c" and "\<not> k \<le> int (Suc n)" and "scanned env k cs (Suc n) n' es"
  shows "scanned env k (c # cs) n n' (ReplyAttempt c # ReplyPosted c s # es)"
proof -
  from assms(2) have "nat k - n = Suc (nat k - Suc n)" by arith
  with assms(1,3) show ?thesis by (simp add: scanned_def)
qed

lemma comment_loop_scanned:
  "comment_loop env k cs n w = (n', w') \<Longrightarrow> int n < k \<Longrightarrow>
     \<exists>es. trace w' = trace w @ es \<and> int n' \<le> k \<and> scanned env k cs n n' es"
proof (induction cs arbitrary: n w)
  case Nil
  then show ?case by (simp add: scanned_nil)
next
  case (Cons c cs)
  let ?w1 = "emit (ReplyAttempt c) w"
  obtain s where s: "generate_reply (reply_draw env n) = Inr s"
    using generate_reply_total by blast
  let ?w2 = "emit (ReplyPosted c s) ?w1"
  note run = Cons.prems(1)
  show ?case
  proof (cases "author c \<noteq> None \<and> author c = REDDIT_USERNAME env")
    case True
    then have ne: "\<not> eligible env c" by (auto simp: eligible_def)
    from run have "comment_loop env k cs n w = (n', w')"
      by (simp only: comment_loop_own [OF True])
    from Cons.IH [OF this Cons.prems(2)] scanned_skip [OF ne] show ?thesis by blast
  next
    case other: False
    show ?thesis
    proof (cases "has_replies c")
      case None
      from run have "n' = n" and "w' = emit LogPostError w"
        by (simp_all only: comment_loop_lookup_raises [OF other None] prod.inject)
      with Cons.prems(2) scanned_lookup_raises [of env k "c # cs" n] show ?thesis
        by (intro exI [of _ "[LogPostError]"]) (simp add: emit_def)
    next
      case (Some b)
      show ?thesis
      proof (cases b)
        case True
        with Some have a: "has_replies c = Some True" by simp
        then have ne: "\<not> eligible env c" by (simp add: eligible_def)
        from run have "comment_loop env k cs n w = (n', w')"
          by (simp only: comment_loop_answered [OF other a])
        from Cons.IH [OF this Cons.prems(2)] scanned_skip [OF ne] show ?thesis by blast
      next
        case False
        with Some have a: "has_replies c = Some False" by simp
        with other have e: "eligible env c" by (simp add: eligible_def)
        show ?thesis
        proof (cases "reply_works c")
          case broken: False
          from run have "n' = n" and "w' = emit LogPostError ?w1"
            by (simp_all only: comment_loop_reply_raises [OF other a broken] prod.inject)
          with Cons.prems(2) scanned_reply_raises [OF e, of k cs n] show ?thesis
            by (intro exI [of _ "[ReplyAttempt c, LogPostError]"]) (simp add: emit_def)
        next
          case True
          show ?thesis
          proof (cases "k \<le> int (Suc n)")
            case last: True
            from run have "n' = Suc n" and "w' = ?w2"
              by (simp_all only: comment_loop_last [OF other a True s last] prod.inject)
            with last Cons.prems(2) scanned_last [OF e Cons.prems(2) last, of cs s] show ?thesis
              by (intro exI [of _ "[ReplyAttempt c, ReplyPosted c s]"]) (simp add: emit_def)
          next
            case more: False
            from run have r: "comment_loop env k cs (Suc n) ?w2 = (n', w')"
              by (simp only: comment_loop_more [OF other a True s more])
            from more have "int (Suc n) < k" by simp
            from Cons.IH [OF r this] obtain es where t: "trace w' = trace ?w2 @ es"
              and b: "int n' \<le> k" and sc: "scanned env k cs (Suc n) n' es"
              by blast
            from t b scanned_more [OF e more sc, of s] show ?thesis
              by (intro exI [of _ "ReplyAttempt c # ReplyPosted c s # es"]) (simp add: emit_def)
          qed
        qed
      qed
    qed
  qed
qed

text \<open>The loop over the posts.\<close>

lemma scanned_neutral:
  "attempted [e] = [] \<Longrightarrow> replied [e] = [] \<Longrightarrow> \<not> scan_error e \<Longrightarrow>
     scanned env k cs n n' es \<Longrightarrow> scanned env k cs n n' (e # es)"
  using attempted_append [of "[e]" es] replied_append [of "[e]" es]
  by (simp add: scanned_def)

lemma scanned_unvisited:
  assumes "scanned env k rest n n' es"
  shows "scanned env k (cs @ rest) n n' (VisitPost u # LogPostError # es)"
proof -
  from assms have "subseq (attempted es) (filter (eligible env) rest)"
    and "subseq (replied es) (attempted es)" and "n' = n + length (replied es)"
    by (simp_all add: scanned_def)
  then show ?thesis
    by (simp add: scanned_def list_emb_append2)
qed

lemma scanned_append:
  assumes "scanned env k cs n n1 es1" and "scanned env k rest n1 n' es2"
  shows "scanned env k (cs @ rest) n n' (es1 @ es2)"
proof -
  let ?E = "filter (eligible env)"
  from assms have 1: "n1 = n + length (replied es1)" "subseq (attempted es1) (?E cs)"
    "subseq (replied es1) (attempted es1)"
    and 2: "n' = n1 + length (replied es2)" "subseq (attempted es2) (?E rest)"
    "subseq (replied es2) (attempted es2)"
    by (simp_all add: scanned_def)
  have exact: "attempted (es1 @ es2) = take (nat k - n) (?E (cs @ rest))
      \<and> replied (es1 @ es2) = attempted (es1 @ es2)"
    if quiet: "\<not> list_ex scan_error (es1 @ es2)"
  proof -
    from quiet have "\<not> list_ex scan_error es1" and "\<not> list_ex scan_error es2"
      by (simp_all add: list_ex_iff)
    with assms have a1: "attempted es1 = take (nat k - n) (?E cs)" and r1: "replied es1 = attempted es1"
      and a2: "attempted es2 = take (nat k - n1) (?E rest)" and r2: "replied es2 = attempted es2"
      by (simp_all add: scanned_def)
    from 1(1) r1 a1 have "nat k - n1 = nat k - n - length (?E cs)"
      by (simp add: min_def)
    with a1 a2 r1 r2 show ?thesis
      by (simp add: attempted_append replied_append)
  qed
  from 1 2 have "n' = n + length (replied (es1 @ es2))"
    and "subseq (attempted (es1 @ es2)) (?E (cs @ rest))"
    and "subseq (replied (es1 @ es2)) (attempted (es1 @ es2))"
    by (simp_all add: attempted_append replied_append list_emb_append_mono)
  with exact show ?thesis
    unfolding scanned_def by blast
qed

lemma post_loop_full: "k \<le> int n \<Longrightarrow> post_loop env k ps n w = (n, w)"
  by (cases ps) auto

lemma post_loop_scanned:
  "post_loop env k ps n w = (n', w') \<Longrightarrow>
     \<exists>es. trace w' = trace w @ es \<and> (int n \<le> k \<longrightarrow> int n' \<le> k)
       \<and> scanned env k (concat (map (\<lambda>p. comments_on (snd p)) ps)) n n' es"
proof (induction ps arbitrary: n w)
  case Nil
  then show ?case by (simp add: scanned_nil)
next
  case (Cons p ps)
  obtain post_url pg where p: "p = (post_url, pg)" by (cases p)
  let ?rest = "concat (map (\<lambda>p. comments_on (snd p)) ps)"
  let ?w1 = "emit (VisitPost post_url) w"
  show ?case
  proof (cases "k \<le> int n")
    case True
    from Cons.prems post_loop_full [OF True, of env "p # ps" w] have "n' = n" and "w' = w"
      by simp_all
    with True scanned_full [OF True] show ?thesis
      by (intro exI [of _ "[]"]) simp
  next
    case False
    show ?thesis
    proof (cases "case post_url of None \<Rightarrow> None | Some u \<Rightarrow> pg")
      case None
      with Cons.prems p False
      have "post_loop env k ps n (emit LogPostError ?w1) = (n', w')"
        by (simp add: Let_def)
      from Cons.IH [OF this] obtain es where t: "trace w' = trace (emit LogPostError ?w1) @ es"
        and b: "int n \<le> k \<longrightarrow> int n' \<le> k" and sc: "scanned env k ?rest n n' es"
        by blast
      from t b scanned_unvisited [OF sc, of "comments_on pg" post_url] show ?thesis
        by (intro exI [of _ "VisitPost post_url # LogPostError # es"]) (simp add: emit_def p)
    next
      case (Some comments)
      then have pg: "comments_on pg = comments"
        by (auto simp: comments_on_def split: option.splits)
      obtain n1 w2 where c: "comment_loop env k comments n ?w1 = (n1, w2)"
        by (cases "comment_loop env k comments n ?w1")
      with Cons.prems p False Some have r: "post_loop env k ps n1 w2 = (n', w')"
        by (simp add: Let_def)
      from False have "int n < k" by simp
      from comment_loop_scanned [OF c this] obtain es1 where t1: "trace w2 = trace ?w1 @ es1"
        and b1: "int n1 \<le> k" and s1: "scanned env k comments n n1 es1"
        by blast
      from Cons.IH [OF r] b1 obtain es2 where t2: "trace w' = trace w2 @ es2"
        and b2: "int n' \<le> k" and s2: "scanned env k ?rest n1 n' es2"
        by blast
      have "scanned env k (comments @ ?rest) n n' (VisitPost post_url # es1 @ es2)"
        by (rule scanned_neutral [OF _ _ _ scanned_append [OF s1 s2]]) simp_all
      with t1 t2 b2 show ?thesis
        by (intro exI [of _ "VisitPost post_url # es1 @ es2"]) (simp add: emit_def p pg)
    qed
  qed
qed

text \<open>The extraction of the URLs.\<close>

lemma extract_urls_scanned:
  "extract_urls ps w = (post_urls, w') \<Longrightarrow>
     \<exists>es. trace w' = trace w @ es \<and> attempted es = [] \<and> replied es = []
       \<and> subseq (concat (map (\<lambda>p. comments_on (snd p)) post_urls))
            (concat (map (\<lambda>p. comments_on (page p)) ps))
       \<and> (\<not> list_ex scan_error es \<longrightarrow>
            concat (map (\<lambda>p. comments_on (snd p)) post_urls)
              = concat (map (\<lambda>p. comments_on (page p)) ps))"
proof (induction ps arbitrary: post_urls w w')
  case Nil
  then show ?case by simp
next
  case (Cons p ps)
  show ?case
  proof (cases "href p")
    case LinkRaises
    with Cons.prems have "extract_urls ps (emit LogUrlError w) = (post_urls, w')"
      by simp
    from Cons.IH [OF this] obtain es where "trace w' = trace (emit LogUrlError w) @ es"
      and "attempted es = []" and "replied es = []"
      and "subseq (concat (map (\<lambda>p. comments_on (snd p)) post_urls))
            (concat (map (\<lambda>p. comments_on (page p)) ps))"
      by blast
    then show ?thesis
      by (intro exI [of _ "LogUrlError # es"]) (simp add: emit_def list_emb_append2)
  next
    case (Href h)
    obtain rest w1 where x: "extract_urls ps w = (rest, w1)"
      by (cases "extract_urls ps w")
    with Cons.prems Href have u: "post_urls = (absolute h, page p) # rest" and w: "w' = w1"
      by simp_all
    from Cons.IH [OF x] obtain es where "trace w1 = trace w @ es"
      and "attempted es = []" and "replied es = []"
      and "subseq (concat (map (\<lambda>p. comments_on (snd p)) rest))
            (concat (map (\<lambda>p. comments_on (page p)) ps))"
      and "\<not> list_ex scan_error es \<longrightarrow>
            concat (map (\<lambda>p. comments_on (snd p)) rest)
              = concat (map (\<lambda>p. comments_on (page p)) ps)"
      by blast
    with u w show ?thesis
      by (intro exI [of _ es]) (simp add: subseq_append')
  qed
qed

text \<open>The step as a whole.\<close>

lemma scan_events_idle:
  "dry_run env \<or> \<not> listing_loads env \<or> listing env = None \<Longrightarrow>
     attempted (scan_events env k w) = [] \<and> replied (scan_events env k w) = []
     \<and> (\<not> dry_run env \<and> fst (reply_to_comments env k w) = None
          \<longrightarrow> list_ex scan_error (scan_events env k w))"
  by (auto simp: scan_events_def reply_to_comments_def Let_def new_events_def emit_def)

lemma scan_events_scanned:
  assumes "\<not> dry_run env" and "listing_loads env" and "listing env = Some post_elements"
  shows "\<exists>cs n' eu es.
     scan_events env k w = VisitListing # eu @ es
     \<and> attempted eu = [] \<and> replied eu = []
     \<and> subseq cs (candidates env)
     \<and> (\<not> list_ex scan_error eu \<longrightarrow> cs = candidates env)
     \<and> (0 \<le> k \<longrightarrow> int n' \<le> k) \<and> (k \<le> 0 \<longrightarrow> n' = 0)
     \<and> scanned env k cs 0 n' es"
proof -
  let ?w1 = "emit VisitListing w"
  obtain post_urls w2 where x: "extract_urls (take 10 post_elements) ?w1 = (post_urls, w2)"
    by (cases "extract_urls (take 10 post_elements) ?w1")
  obtain n' w3 where q: "post_loop env k post_urls 0 w2 = (n', w3)"
    by (cases "post_loop env k post_urls 0 w2")
  let ?cs = "concat (map (\<lambda>p. comments_on (snd p)) post_urls)"
  from assms x q have w3: "snd (reply_to_comments env k w) = w3"
    by (simp add: reply_to_comments_def Let_def)
  from extract_urls_scanned [OF x] obtain eu where eu: "trace w2 = trace ?w1 @ eu"
    and a: "attempted eu = []" "replied eu = []"
    and sub: "subseq ?cs (candidates env)"
    and all: "\<not> list_ex scan_error eu \<longrightarrow> ?cs = candidates env"
    by (auto simp: candidates_def assms(3))
  from post_loop_scanned [OF q] obtain es where es: "trace w3 = trace w2 @ es"
    and b: "0 \<le> k \<longrightarrow> int n' \<le> k"
    and sc: "scanned env k ?cs 0 n' es"
    by auto
  have z: "k \<le> 0 \<longrightarrow> n' = 0"
    using post_loop_full [of k 0 env post_urls w2] q by auto
  from eu es have e: "scan_events env k w = VisitListing # eu @ es"
    by (simp add: scan_events_def w3 new_events_def emit_def)
  show ?thesis
    by (rule exI [of _ ?cs], rule exI [of _ n'], rule exI [of _ eu], rule exI [of _ es],
        intro conjI)
      (rule e a sub all b z sc)+
qed

lemma scan_events_bound: "length (replied (scan_events env k w)) \<le> nat k"
proof (cases "dry_run env \<or> \<not> listing_loads env \<or> listing env = None")
  case True
  from scan_events_idle [OF this] show ?thesis by simp
next
  case False
  then obtain post_elements where "\<not> dry_run env" "listing_loads env"
    "listing env = Some post_elements"
    by auto
  from scan_events_scanned [OF this, of k w] obtain cs n' eu es
    where "scan_events env k w = VisitListing # eu @ es" and "replied eu = []"
      and "0 \<le> k \<longrightarrow> int n' \<le> k" and "k \<le> 0 \<longrightarrow> n' = 0"
      and "scanned env k cs 0 n' es"
    by blast
  then show ?thesis
    by (cases "0 \<le> k") (auto simp: scanned_def replied_append)
qed

lemma scan_events_order:
  "subseq (attempted (scan_events env k w)) (filter (eligible env) (candidates env))
   \<and> subseq (replied (scan_events env k w)) (attempted (scan_events env k w))"
proof (cases "dry_run env \<or> \<not> listing_loads env \<or> listing env = None")
  case True
  from scan_events_idle [OF this] show ?thesis by simp
next
  case False
  then obtain post_elements where "\<not> dry_run env" "listing_loads env"
    "listing env = Some post_elements"
    by auto
  from scan_events_scanned [OF this, of k w] obtain cs n' eu es
    where e: "scan_events env k w = VisitListing # eu @ es"
      and a: "attempted eu = []" "replied eu = []"
      and sub: "subseq cs (candidates env)"
      and sc: "scanned env k cs 0 n' es"
    by blast
  from sc have 1: "subseq (attempted es) (filter (eligible env) cs)"
    and 2: "subseq (replied es) (attempted es)"
    by (simp_all add: scanned_def)
  from sub have "subseq (filter (eligible env) cs) (filter (eligible env) (candidates env))"
    by (rule subseq_filter)
  with 1 have "subseq (attempted es) (filter (eligible env) (candidates env))"
    by (rule subseq_order.trans)
  with 2 e a show ?thesis
    by (simp add: attempted_append replied_append)
qed

lemma scan_events_exact:
  assumes "\<not> dry_run env" and "fst (reply_to_comments env k w) = None"
    and "\<not> list_ex scan_error (scan_events env k w)"
  shows "attempted (scan_events env k w) = take (nat k) (filter (eligible env) (candidates env))
   \<and> replied (scan_events env k w) = attempted (scan_events env k w)"
proof (cases "dry_run env \<or> \<not> listing_loads env \<or> listing env = None")
  case True
  from scan_events_idle [OF this, of k w] assms show ?thesis by simp
next
  case False
  then obtain post_elements where "\<not> dry_run env" "listing_loads env"
    "listing env = Some post_elements"
    by auto
  from scan_events_scanned [OF this, of k w] obtain cs n' eu es
    where e: "scan_events env k w = VisitListing # eu @ es"
      and a: "attempted eu = []" "replied eu = []"
      and all: "\<not> list_ex scan_error eu \<longrightarrow> cs = candidates env"
      and sc: "scanned env k cs 0 n' es"
    by blast
  from assms(3) e have "\<not> list_ex scan_error eu" and "\<not> list_ex scan_error es"
    by (simp_all add: list_ex_iff)
  with all sc have "attempted es = take (nat k) (filter (eligible env) (candidates env))"
    and "replied es = attempted es"
    by (simp_all add: scanned_def)
  with e a show ?thesis
    by (simp add: attempted_append replied_append)
qed

text \<open>The routine replies at most three times.\<close>

lemma create_post_no_reply: "create_post env post w = (ok, w') \<Longrightarrow> adds no_reply w w'"
  by (auto simp: create_post_def pin_post_def Let_def no_reply_def
           intro!: adds_emit intro: adds_trans [OF adds_emit adds_emit]
           split: if_splits submit_outcome.splits)

lemma post_weekly_no_reply:
  "post_weekly env today_name specs n w = (n', w') \<Longrightarrow> adds no_reply w w'"
proof (induction specs arbitrary: n w)
  case Nil
  then show ?case by (simp add: adds_refl)
next
  case (Cons weekly rest)
  show ?case
  proof (cases "w_day weekly = today_name")
    case False
    with Cons show ?thesis by simp
  next
    case True
    obtain t w1 where t: "now env w = (t, w1)" by (cases "now env w")
    have a1: "adds no_reply w w1" by (rule adds_now [OF t])
    show ?thesis
    proof (cases "hour t < 12")
      case False
      with Cons True t a1 show ?thesis by (auto intro: adds_trans)
    next
      case lt: True
      obtain ok w2 where c: "create_post env (weekly_post weekly) w1 = (ok, w2)"
        by (cases "create_post env (weekly_post weekly) w1")
      from Cons.prems True t lt c
      have "post_weekly env today_name rest (if ok then Suc n else n) w2 = (n', w')" by simp
      from Cons.IH [OF this] create_post_no_reply [OF c] a1 show ?thesis
        by (blast intro: adds_trans)
    qed
  qed
qed

lemma post_daily_no_reply:
  assumes "post_daily env n w = (r, w')"
  shows "adds no_reply w w'"
proof -
  obtain due w1 where d: "(if n = 0 then (True, w)
      else (case now env w of (t, w1) \<Rightarrow> (14 \<le> hour t, w1))) = (due, w1)"
    by (cases "if n = 0 then (True, w) else (case now env w of (t, w1) \<Rightarrow> (14 \<le> hour t, w1))")
  have a1: "adds no_reply w w1"
    using d by (auto simp: adds_refl split: if_splits prod.splits dest: adds_now)
  from assms d have "w' = w1 \<or> (\<exists>p ok. create_post env p w1 = (ok, w'))"
    by (auto simp: post_daily_def split: if_splits sum.splits prod.splits)
  with a1 show ?thesis
    by (auto intro: adds_trans dest: create_post_no_reply)
qed

lemma no_reply_within: "adds no_reply w w' \<Longrightarrow> replies_within m w w'"
proof -
  assume "adds no_reply w w'"
  then obtain es where t: "trace w' = trace w @ es" and q: "list_all no_reply es"
    by (auto simp: adds_def)
  from q have "replied es = []"
    by (induction es rule: replied.induct) (auto simp: no_reply_def)
  with t show ?thesis by (auto simp: replies_within_def)
qed

lemma within_no_reply:
  "replies_within m w w1 \<Longrightarrow> adds no_reply w1 w2 \<Longrightarrow> replies_within m w w2"
proof -
  assume "replies_within m w w1" and "adds no_reply w1 w2"
  then obtain es1 es2 where "trace w1 = trace w @ es1" and "length (replied es1) \<le> m"
    and "trace w2 = trace w1 @ es2" and "replied es2 = []"
    using no_reply_within [of w1 w2 0] by (auto simp: replies_within_def)
  then have "trace w2 = trace w @ (es1 @ es2)" and "length (replied (es1 @ es2)) \<le> m"
    by (simp_all add: replied_append)
  then show ?thesis unfolding replies_within_def by blast
qed

lemma no_reply_scan:
  assumes "adds no_reply w w4" and "reply_to_comments env k w4 = (r, w5)"
  shows "replies_within (nat k) w w5"
proof -
  from reply_to_comments_adds [OF assms(2)] obtain es where t: "trace w5 = trace w4 @ es"
    by (auto simp: adds_def)
  with assms(2) have "scan_events env k w4 = es"
    by (simp add: scan_events_def new_events_def)
  with scan_events_bound [of env k w4] have "length (replied es) \<le> nat k" by simp
  with t have "replies_within (nat k) w4 w5"
    unfolding replies_within_def by blast
  moreover from assms(1) obtain es0 where "trace w4 = trace w @ es0" and "replied es0 = []"
    using no_reply_within [of w w4 0] by (auto simp: replies_within_def)
  ultimately show ?thesis
    by (auto simp: replies_within_def replied_append)
qed

lemma try_body_replies:
  assumes "try_body env state today today_name w = (out, w')"
  shows "replies_within 3 w w'"
proof -
  have sess: "no_reply OpenSession" "no_reply Login" "no_reply QuitSession"
    by (simp_all add: no_reply_def)
  obtain r1 w1 where 1: "setup_browser env w = (r1, w1)"
    by (cases "setup_browser env w")
  have a1: "adds no_reply w w1"
    using 1 sess by (auto simp: setup_browser_def adds_refl intro!: adds_emit
      split: browser_outcome.splits)
  show ?thesis
  proof (cases r1)
    case (Inl e)
    with assms 1 have "w' = w1" by (auto simp: try_body_def)
    with a1 show ?thesis by (simp add: no_reply_within)
  next
    case (Inr u)
    obtain r2 w2 where 2: "login env (w1\<lparr>driver := True\<rparr>) = (r2, w2)"
      by (cases "login env (w1\<lparr>driver := True\<rparr>)")
    have "adds no_reply (w1\<lparr>driver := True\<rparr>) w2"
      using 2 sess by (auto simp: login_def Let_def intro!: adds_emit split: login_outcome.splits)
    with a1 have a2: "adds no_reply w w2"
      by (blast intro: adds_trans adds_driver)
    show ?thesis
    proof (cases "r2 = Inr True")
      case False
      with assms 1 Inr 2 have "w' = w2"
        by (auto simp: try_body_def split: sum.splits bool.splits)
      with a2 show ?thesis by (simp add: no_reply_within)
    next
      case True
      obtain n3 w3 where 3: "post_weekly env today_name WEEKLY_THREADS 0 w2 = (n3, w3)"
        by (cases "post_weekly env today_name WEEKLY_THREADS 0 w2")
      have a3: "adds no_reply w w3"
        by (rule adds_trans [OF a2 post_weekly_no_reply [OF 3]])
      obtain r4 w4 where 4: "post_daily env n3 w3 = (r4, w4)"
        by (cases "post_daily env n3 w3")
      have a4: "adds no_reply w w4"
        by (rule adds_trans [OF a3 post_daily_no_reply [OF 4]])
      show ?thesis
      proof (cases r4)
        case (Inl e)
        with assms 1 Inr 2 True 3 4 have "w' = w4" by (auto simp: try_body_def)
        with a4 show ?thesis by (simp add: no_reply_within)
      next
        case posts: (Inr posts_made)
        obtain r5 w5 where 5: "reply_to_comments env 3 w4 = (r5, w5)"
          by (cases "reply_to_comments env 3 w4")
        from no_reply_scan [OF a4 5] have a5: "replies_within 3 w w5" by simp
        show ?thesis
        proof (cases r5)
          case (Some e)
          with assms 1 Inr 2 True 3 4 posts 5 have "w' = w5" by (auto simp: try_body_def)
          with a5 show ?thesis by simp
        next
          case None
          obtain r6 w6 where 6: "track_weekly env today_name posts_made WEEKLY_THREADS
              (update_state today posts_made state) w5 = (r6, w6)"
            by (cases "track_weekly env today_name posts_made WEEKLY_THREADS
              (update_state today posts_made state) w5")
          from track_weekly_frame [OF 6] have "trace w6 = trace w5" by simp
          with a5 have a6: "replies_within 3 w w6" by (simp add: replies_within_def)
          show ?thesis
          proof (cases r6)
            case (Inl e)
            with assms 1 Inr 2 True 3 4 posts 5 None 6 have "w' = w6"
              by (auto simp: try_body_def)
            with a6 show ?thesis by simp
          next
            case state': (Inr state')
            with assms 1 Inr 2 True 3 4 posts 5 None 6
            have "w' = save_state env (JDict state') w6"
              by (auto simp: try_body_def)
            then have "adds no_reply w6 w'"
              by (simp add: save_state_def Let_def adds_def emit_def no_reply_def)
            with a6 show ?thesis by (rule within_no_reply)
          qed
        qed
      qed
    qed
  qed
qed

lemma run_replies:
  "length (replied (new_events w (snd (run_daily_routine env w)))) \<le> 3"
proof -
  obtain out w' where r: "run_daily_routine env w = (out, w')"
    by (cases "run_daily_routine env w")
  have "replies_within 3 w w'"
  proof (cases "\<exists>state. load_state env w = Inr (JDict state)
    \<and> \<not> (map_of state ''last_run'' = Some (JStr (date (clock env (ticks w)))) \<and> \<not> dry_run env)")
    case False
    with r have "trace w' = trace w"
      by (auto simp: run_daily_routine_def now_def split: sum.splits json.splits if_splits)
    then show ?thesis by (simp add: replies_within_def)
  next
    case True
    then obtain state where l: "load_state env w = Inr (JDict state)"
      and n: "\<not> (map_of state ''last_run'' = Some (JStr (date (clock env (ticks w)))) \<and> \<not> dry_run env)"
      by blast
    let ?w1 = "w\<lparr>ticks := Suc (Suc (ticks w))\<rparr>"
    obtain out1 w1' where t: "try_body env state (date (clock env (ticks w)))
        (weekday (clock env (Suc (ticks w)))) ?w1 = (out1, w1')"
      by (cases "try_body env state (date (clock env (ticks w)))
        (weekday (clock env (Suc (ticks w)))) ?w1")
    from r l n t have w': "w' = (if driver w1' then emit QuitSession w1' else w1')"
      by (auto simp: run_daily_routine_def now_def finally_quit_def)
    from try_body_replies [OF t] have "replies_within 3 w w1'"
      by (simp add: replies_within_def)
    moreover from w' have "adds no_reply w1' w'"
      by (auto simp: adds_refl no_reply_def intro!: adds_emit)
    ultimately show ?thesis by (rule within_no_reply)
  qed
  with r show ?thesis
    by (auto simp: replies_within_def new_events_def)
qed

text \<open>
  C3, as amended. The reply step attempts replies only on eligible candidates, that is
  on comments of the first ten post containers of the newest listing that are neither
  the account's own nor answered, in the order the scan meets them; every reply it
  submits follows an attempt, and it submits at most \<open>k\<close> of them, \<open>k\<close> being the
  bound it is called with: 3 in the daily routine, 5 by the parameter's default. When
  the step runs for real, returns, and none of its exception handlers has fired, the
  attempts are exactly the first \<open>min k n\<close> of the \<open>n\<close> eligible candidates, and a
  reply is submitted to each.
\<close>

theorem reply_bound:
  "length (replied (scan_events env k w)) \<le> nat k
   \<and> subseq (attempted (scan_events env k w)) (filter (eligible env) (candidates env))
   \<and> subseq (replied (scan_events env k w)) (attempted (scan_events env k w))
   \<and> (\<not> dry_run env \<and> fst (reply_to_comments env k w) = None
        \<and> \<not> list_ex scan_error (scan_events env k w) \<longrightarrow>
          attempted (scan_events env k w) = take (nat k) (filter (eligible env) (candidates env))
          \<and> replied (scan_events env k w) = attempted (scan_events env k w)
          \<and> length (attempted (scan_events env k w))
              = min (nat k) (length (filter (eligible env) (candidates env))))
   \<and> length (replied (new_events w (snd (run_daily_routine env w)))) \<le> 3
   \<and> max_replies_default = 5"
proof (intro conjI impI)
  show "length (replied (scan_events env k w)) \<le> nat k"
    by (rule scan_events_bound)
  show "subseq (attempted (scan_events env k w)) (filter (eligible env) (candidates env))"
    and "subseq (replied (scan_events env k w)) (attempted (scan_events env k w))"
    using scan_events_order [of env k w] by simp_all
  show "length (replied (new_events w (snd (run_daily_routine env w)))) \<le> 3"
    by (rule run_replies)
  show "max_replies_default = 5"
    by (simp add: max_replies_default_def)
next
  assume "\<not> dry_run env \<and> fst (reply_to_comments env k w) = None
      \<and> \<not> list_ex scan_error (scan_events env k w)"
  then have x: "attempted (scan_events env k w)
        = take (nat k) (filter (eligible env) (candidates env))
      \<and> replied (scan_events env k w) = attempted (scan_events env k w)"
    by (intro scan_events_exact) simp_all
  from x show "attempted (scan_events env k w)
      = take (nat k) (filter (eligible env) (candidates env))"
    by simp
  from x show "replied (scan_events env k w) = attempted (scan_events env k w)"
    by simp
  from x show "length (attempted (scan_events env k w))
      = min (nat k) (length (filter (eligible env) (candidates env)))"
    by (simp add: min.commute)
qed

theorem reply_bound_witness:
  "\<not> dry_run busy_env \<and> fst (reply_to_comments busy_env 3 start) = None
   \<and> \<not> list_ex scan_error (scan_events busy_env 3 start)
   \<and> attempted (scan_events busy_env 3 start)
       = [commenter ''bob'', commenter ''dave'', commenter ''erin'']
   \<and> replied (scan_events busy_env 3 start) = attempted (scan_events busy_env 3 start)
   \<and> length (filter (eligible busy_env) (candidates busy_env)) = 4"
proof -
  have h: "\<not> dry_run busy_env \<and> fst (reply_to_comments busy_env 3 start) = None
      \<and> \<not> list_ex scan_error (scan_events busy_env 3 start)"
    by code_simp
  have c: "take (nat 3) (filter (eligible busy_env) (candidates busy_env))
      = [commenter ''bob'', commenter ''dave'', commenter ''erin'']"
    by code_simp
  have n: "length (filter (eligible busy_env) (candidates busy_env)) = 4"
    by code_simp
  from reply_bound [of busy_env 3 start] h c n show ?thesis
    by simp
qed

text \<open>
  The claim as stated fails in two places. When a reply raises, the handler around the
  post moves on to the next post: with two eligible comments on one post and the first
  reply raising, one attempt is made where \<open>min 3 2 = 2\<close>. And the default of the bound
  is 5, not 3: called with it on a post of six eligible comments, the step submits five
  replies.
\<close>

theorem reply_bound_counterexample:
  "length (attempted (scan_events flaky_env 3 start)) = 1
   \<and> min 3 (length (filter (eligible flaky_env) (candidates flaky_env))) = 2
   \<and> length (filter (eligible crowd_env) (candidates crowd_env)) = 6
   \<and> length (replied (scan_events crowd_env max_replies_default start)) = 5"
  by code_simp

end
